theory Spec2Isabelle
  imports Complex_Main
begin

section \<open>The autocomplete reducer\<close>

text \<open>
  Source: \<^verbatim>\<open>content/posts/first-open-source-project/index.mdx\<close>, the \<^verbatim>\<open>reducer\<close> of
  \<^verbatim>\<open>useGoogleAutocomplete\<close>. The JSON body of a response is a record with the two fields the
  code reads. \<^verbatim>\<open>results\<close> holds either the array literal \<^verbatim>\<open>[]\<close> (initial state and
  \<^verbatim>\<open>ZERO_RESULTS\<close>) or whatever \<^verbatim>\<open>action.payload.data\<close> was, which at the hook's dispatch site
  is the whole response object. \<^verbatim>\<open>error\<close> is \<^verbatim>\<open>null\<close> or a string.
\<close>

record response =
  status :: string
  predictions :: "string list"

datatype results = EmptyArray | ResponseData response

record rstate =
  results :: results
  isLoading :: bool
  error :: "string option"

text \<open>An action is \<^verbatim>\<open>{ type: string, payload?: any }\<close>; a present payload is \<^verbatim>\<open>{ data }\<close>.\<close>

record action =
  atype :: string
  payload :: "response option"

text \<open>Reading \<^verbatim>\<open>action.payload.data\<close> when the payload is absent throws a TypeError.\<close>

datatype jserror = TypeError

definition initialState :: rstate where
  "initialState = \<lparr>results = EmptyArray, isLoading = False, error = None\<rparr>"

definition reducer :: "rstate \<Rightarrow> action \<Rightarrow> jserror + rstate" where
  "reducer state a =
     (if atype a = ''LOADING'' then Inr (state\<lparr>isLoading := True\<rparr>)
      else if atype a = ''OK'' then
        (case payload a of
           None \<Rightarrow> Inl TypeError
         | Some d \<Rightarrow> Inr (state\<lparr>results := ResponseData d, isLoading := False, error := None\<rparr>))
      else if atype a = ''ZERO_RESULTS'' then
        Inr (state\<lparr>results := EmptyArray, isLoading := False, error := None\<rparr>)
      else if atype a = ''INVALID_REQUEST'' then
        Inr (state\<lparr>isLoading := False, error := None\<rparr>)
      else if atype a = ''REQUEST_DENIED'' then
        Inr (state\<lparr>isLoading := False, error := Some ''Invalid 'key' parameter''\<rparr>)
      else if atype a = ''UNKNOWN_ERROR'' then
        Inr (state\<lparr>isLoading := False, error := Some ''Unknown error, refresh and try again.''\<rparr>)
      else Inr state)"

definition handled_types :: "string list" where
  "handled_types =
     [''LOADING'', ''OK'', ''ZERO_RESULTS'', ''INVALID_REQUEST'', ''REQUEST_DENIED'',
      ''UNKNOWN_ERROR'']"

section \<open>The autocomplete hook\<close>

text \<open>
  Source: \<^verbatim>\<open>useGoogleAutocomplete\<close> and \<^verbatim>\<open>debounce\<close> in the same post. The hook is a state
  machine over the refs, the reducer state and the browser's pending timers. Time is a
  millisecond clock. A value returned by \<^verbatim>\<open>uuid4()\<close> is represented by the number of the call
  that produced it, so two calls give two different tokens. The props other than \<^verbatim>\<open>query\<close> are
  held fixed, so a request is identified by its endpoint, its \<^verbatim>\<open>input\<close>/\<^verbatim>\<open>placeid\<close> parameter
  and its \<^verbatim>\<open>sessiontoken\<close> parameter.
\<close>

datatype endpoint = Autocomplete | Details

record request =
  rid :: nat
  endpoint :: endpoint
  input :: string
  sessiontoken :: nat

text \<open>
  One call of \<^verbatim>\<open>debounce(func, wait, immediate)\<close> makes a closure with its own variable
  \<^verbatim>\<open>timeout\<close>: unset, or the id that \<^verbatim>\<open>setTimeout\<close> returned. \<^verbatim>\<open>func\<close> is represented by the
  query its closure captured. A pending \<^verbatim>\<open>setTimeout(later, wait)\<close> lives in the browser, not in
  the closure: it has its id, the clock value at which it is due, and the \<^verbatim>\<open>later\<close> callback,
  represented by what \<^verbatim>\<open>later\<close> closes over (\<^verbatim>\<open>func\<close> and \<^verbatim>\<open>immediate\<close>). It stays pending until
  it fires or \<^verbatim>\<open>clearTimeout\<close> is called with its id.
\<close>

record debounced =
  timeout :: "nat option"
  wait :: nat
  immediate :: bool
  func_query :: string

record timer =
  tid :: nat
  due :: nat
  later_query :: string
  later_immediate :: bool

record hook =
  rstate :: rstate
  query :: string
  initialRender :: bool
  debouncedFn :: "debounced option"
  timers :: "timer list"
  timer_ids :: nat
  sessionToken :: nat
  uuid_calls :: nat
  sessionTokenTimeout :: "nat option"
  aborted :: bool
  inflight :: "request list"
  issued :: "request list"
  now :: nat

text \<open>
  \<^verbatim>\<open>debouncedFn\<close> is the ref holding the closure of the latest \<^verbatim>\<open>debounce\<close> call; \<^verbatim>\<open>timers\<close> are
  the browser's pending timeouts, in the order they were set, and \<^verbatim>\<open>timer_ids\<close> counts the
  \<^verbatim>\<open>setTimeout\<close> calls (ids start at 1). \<^verbatim>\<open>inflight\<close> are the fetches whose promise is pending;
  \<^verbatim>\<open>issued\<close> is the log of every request sent to the network. \<^verbatim>\<open>sessionTokenTimeout\<close> is the due
  time of the \<^verbatim>\<open>setInterval\<close> timer, \<^verbatim>\<open>None\<close> once cleared. \<^verbatim>\<open>aborted\<close> is the state of the abort
  signal, set by the unmount cleanup only.
\<close>

definition dispatch :: "action \<Rightarrow> hook \<Rightarrow> hook" where
  "dispatch a h = (case reducer (rstate h) a of Inr r \<Rightarrow> h\<lparr>rstate := r\<rparr> | Inl e \<Rightarrow> h)"

definition resetSessionToken :: "hook \<Rightarrow> hook" where
  "resetSessionToken h = h\<lparr>sessionToken := uuid_calls h, uuid_calls := uuid_calls h + 1\<rparr>"

text \<open>\<^verbatim>\<open>fetch(url, { signal })\<close>: with an aborted signal the promise rejects and nothing is sent.\<close>

definition fetch :: "endpoint \<Rightarrow> string \<Rightarrow> hook \<Rightarrow> hook" where
  "fetch ep inp h =
     (if aborted h then h
      else (let r = \<lparr>rid = length (issued h), endpoint = ep, input = inp,
                      sessiontoken = sessionToken h\<rparr>
            in h\<lparr>inflight := inflight h @ [r], issued := issued h @ [r]\<rparr>))"

text \<open>\<^verbatim>\<open>clearTimeout(timeout)\<close>: a no-op on an unset variable, else the timer with that id goes.\<close>

definition clearTimeout :: "nat option \<Rightarrow> hook \<Rightarrow> hook" where
  "clearTimeout i h =
     (case i of None \<Rightarrow> h | Some j \<Rightarrow> h\<lparr>timers := filter (\<lambda>t. tid t \<noteq> j) (timers h)\<rparr>)"

text \<open>\<^verbatim>\<open>setTimeout(later, wait)\<close> inside the closure \<open>d\<close>: returns the new id.\<close>

definition setTimeout :: "debounced \<Rightarrow> hook \<Rightarrow> nat \<times> hook" where
  "setTimeout d h =
     (let i = Suc (timer_ids h)
      in (i, h\<lparr>timers := timers h @ [\<lparr>tid = i, due = now h + wait d,
                                        later_query = func_query d,
                                        later_immediate = immediate d\<rparr>],
               timer_ids := i\<rparr>))"

definition debounce :: "string \<Rightarrow> nat \<Rightarrow> bool \<Rightarrow> debounced" where
  "debounce q w i = \<lparr>timeout = None, wait = w, immediate = i, func_query = q\<rparr>"

text \<open>
  \<^verbatim>\<open>executedFunction\<close> returns the closure's new state, whether \<^verbatim>\<open>func\<close> is to be called now, and
  the hook with the timer set. \<^verbatim>\<open>clear\<close> is the function the post added to the closure.
\<close>

definition executedFunction :: "debounced \<Rightarrow> hook \<Rightarrow> debounced \<times> bool \<times> hook" where
  "executedFunction d h =
     (let callNow = (immediate d \<and> timeout d = None);
          h1 = clearTimeout (timeout d) h;
          (i, h2) = setTimeout d h1
      in (d\<lparr>timeout := Some i\<rparr>, callNow, h2))"

definition clear :: "debounced \<Rightarrow> hook \<Rightarrow> debounced \<times> hook" where
  "clear d h = (d\<lparr>timeout := None\<rparr>, clearTimeout (timeout d) h)"

text \<open>
  \<^verbatim>\<open>later\<close>, run by the browser when the timer \<open>t\<close> fires: it unsets \<^verbatim>\<open>timeout\<close> in the closure
  that set the timer (visible only if that closure is still the one in the ref) and calls
  \<^verbatim>\<open>func\<close> unless \<^verbatim>\<open>immediate\<close>. \<^verbatim>\<open>func\<close> is the hook's arrow function, which builds the URL from
  the query it captured and the current session token and fetches it.
\<close>

definition later :: "timer \<Rightarrow> hook \<Rightarrow> hook" where
  "later t h =
     (let h1 = (case debouncedFn h of
                  None \<Rightarrow> h
                | Some d \<Rightarrow> if timeout d = Some (tid t)
                            then h\<lparr>debouncedFn := Some (d\<lparr>timeout := None\<rparr>)\<rparr> else h)
      in if \<not> later_immediate t then fetch Autocomplete (later_query t) h1 else h1)"

text \<open>
  The effect on \<^verbatim>\<open>[query, ...]\<close>: skipped on the initial render; then it cancels the previous
  debounced call with \<^verbatim>\<open>clear\<close>, dispatches LOADING unless already loading, makes a new
  debounced function and calls it.
\<close>

definition queryEffect :: "hook \<Rightarrow> hook" where
  "queryEffect h =
     (if \<not> initialRender h then h\<lparr>initialRender := True\<rparr>
      else (let h1 = (case debouncedFn h of
                        None \<Rightarrow> h
                      | Some d0 \<Rightarrow> (let (d1, h') = clear d0 h in h'\<lparr>debouncedFn := Some d1\<rparr>));
                h2 = (if \<not> isLoading (rstate h1)
                      then dispatch \<lparr>atype = ''LOADING'', payload = None\<rparr> h1 else h1);
                (d, callNow, h3) = executedFunction (debounce (query h2) 400 False) h2;
                h4 = h3\<lparr>debouncedFn := Some d\<rparr>
            in if callNow then fetch Autocomplete (func_query d) h4 else h4))"

text \<open>The mount effect arms the 180000 ms interval and the abort controller.\<close>

definition mountEffect :: "hook \<Rightarrow> hook" where
  "mountEffect h = h\<lparr>sessionTokenTimeout := Some (now h + 180000), aborted := False\<rparr>"

definition mount :: "string \<Rightarrow> hook" where
  "mount q =
     queryEffect (mountEffect
       \<lparr>rstate = initialState, query = q, initialRender = False, debouncedFn = None,
        timers = [], timer_ids = 0,
        sessionToken = 0, uuid_calls = 1, sessionTokenTimeout = None, aborted = False,
        inflight = [], issued = [], now = 0\<rparr>)"

text \<open>
  Timers that are due at the current clock value: the interval, then every pending timeout
  that is due, in the order they were set.
\<close>

definition fire_interval :: "hook \<Rightarrow> hook" where
  "fire_interval h =
     (case sessionTokenTimeout h of
        None \<Rightarrow> h
      | Some t \<Rightarrow> if t \<le> now h
                  then resetSessionToken (h\<lparr>sessionTokenTimeout := Some (t + 180000)\<rparr>)
                  else h)"

definition fire_timeouts :: "hook \<Rightarrow> hook" where
  "fire_timeouts h =
     foldl (\<lambda>h' t. later t h')
       (h\<lparr>timers := filter (\<lambda>t. \<not> due t \<le> now h) (timers h)\<rparr>)
       (filter (\<lambda>t. due t \<le> now h) (timers h))"

definition tick :: "hook \<Rightarrow> hook" where
  "tick h = fire_timeouts (fire_interval (h\<lparr>now := now h + 1\<rparr>))"

fun advance :: "nat \<Rightarrow> hook \<Rightarrow> hook" where
  "advance 0 h = h"
| "advance (Suc n) h = advance n (tick h)"

text \<open>
  Events: a render with a new \<^verbatim>\<open>query\<close> prop, time passing, a fetch resolving with a parsed JSON
  body, a fetch failing, a call of \<^verbatim>\<open>getPlaceDetails\<close>, and unmount.
\<close>

datatype event =
    SetQuery string
  | Advance nat
  | Resolve nat response
  | Reject nat
  | GetPlaceDetails string
  | Unmount

definition settle :: "nat \<Rightarrow> hook \<Rightarrow> hook" where
  "settle i h = h\<lparr>inflight := filter (\<lambda>r. rid r \<noteq> i) (inflight h)\<rparr>"

fun step :: "event \<Rightarrow> hook \<Rightarrow> hook" where
  "step (SetQuery q) h =
     (if aborted h \<or> q = query h then h else queryEffect (h\<lparr>query := q\<rparr>))"
| "step (Advance n) h = advance n h"
| "step (Resolve i d) h =
     (case find (\<lambda>r. rid r = i) (inflight h) of
        None \<Rightarrow> h
      | Some r \<Rightarrow>
          (case endpoint r of
             Autocomplete \<Rightarrow> dispatch \<lparr>atype = status d, payload = Some d\<rparr> (settle i h)
           | Details \<Rightarrow> resetSessionToken (settle i h)))"
| "step (Reject i) h = settle i h"
| "step (GetPlaceDetails p) h = fetch Details p h"
| "step Unmount h = h\<lparr>sessionTokenTimeout := None, aborted := True, inflight := []\<rparr>"

fun run :: "event list \<Rightarrow> hook \<Rightarrow> hook" where
  "run [] h = h"
| "run (e # es) h = run es (step e h)"

text \<open>
  A burst of typing: each element is the pause (ms) before the next update of the
  \<^verbatim>\<open>query\<close> prop, and the new value.
\<close>

fun burst :: "(nat \<times> string) list \<Rightarrow> event list" where
  "burst [] = []"
| "burst ((p, q) # r) = Advance p # SetQuery q # burst r"

text \<open>What identifies a request on the wire, apart from the session token.\<close>

definition key :: "request \<Rightarrow> endpoint \<times> string" where
  "key r = (endpoint r, input r)"

text \<open>
  Auxiliary predicates for the proofs. \<open>token_inv\<close> relates the interval timer to the clock
  and says that the current token came from an earlier \<^verbatim>\<open>uuid4()\<close> call. \<open>timer_inv\<close> says that
  the browser holds no timeout but the one of the closure in the ref, which is what the
  \<^verbatim>\<open>clear\<close> call of the effect maintains. \<open>quiet_until t\<close> says that no timer is due up to
  and including time \<open>t\<close>.
\<close>

definition token_inv :: "hook \<Rightarrow> bool" where
  "token_inv h = (sessionToken h < uuid_calls h
     \<and> sessionTokenTimeout h
         = (if aborted h then None else Some ((now h div 180000 + 1) * 180000)))"

definition timer_inv :: "hook \<Rightarrow> bool" where
  "timer_inv h =
     (case timers h of
        [] \<Rightarrow> (case debouncedFn h of None \<Rightarrow> True | Some d \<Rightarrow> timeout d = None)
      | [t] \<Rightarrow> (case debouncedFn h of
                 None \<Rightarrow> False
               | Some d \<Rightarrow> timeout d = Some (tid t) \<and> \<not> later_immediate t \<and> now h < due t)
      | _ \<Rightarrow> False)"

definition quiet_until :: "nat \<Rightarrow> hook \<Rightarrow> bool" where
  "quiet_until t h =
     (list_all (\<lambda>x. t < due x) (timers h)
      \<and> (case sessionTokenTimeout h of None \<Rightarrow> True | Some u \<Rightarrow> t < u))"

text \<open>The events at which the code calls \<^verbatim>\<open>resetSessionToken\<close>, read off the state before them.\<close>

definition changes_token :: "event \<Rightarrow> hook \<Rightarrow> bool" where
  "changes_token e h =
     (case e of
        Advance n \<Rightarrow> \<not> aborted h \<and> now h div 180000 < (now h + n) div 180000
      | Resolve i d \<Rightarrow>
          (case find (\<lambda>r. rid r = i) (inflight h) of
             None \<Rightarrow> False
           | Some r \<Rightarrow> endpoint r = Details)
      | _ \<Rightarrow> False)"

section \<open>The modal\<close>

text \<open>
  Source: \<^verbatim>\<open>content/posts/building-an-accessible-modal-using-hooks-and-higher-ordered-components/index.mdx\<close>.
  An element is its tag name and its \<^verbatim>\<open>tabindex\<close> attribute (absent or a string). A container is
  the list of its descendant elements, which is what \<^verbatim>\<open>querySelectorAll\<close> ranges over.
\<close>

record element =
  tag :: string
  tabindex :: "string option"

datatype toggle = On | Off

definition selector :: "string list" where
  "selector = [''button'', ''a'', ''input'', ''textarea'', ''select'']"

definition matches :: "element \<Rightarrow> bool" where
  "matches e = (tag e \<in> set selector)"

definition focusableElements :: "element list \<Rightarrow> element list" where
  "focusableElements container = filter matches container"

definition toggleTabIndex :: "toggle \<Rightarrow> element list \<Rightarrow> element list" where
  "toggleTabIndex ty container =
     map (\<lambda>e. if matches e
               then (case ty of On \<Rightarrow> e\<lparr>tabindex := None\<rparr> | Off \<Rightarrow> e\<lparr>tabindex := Some ''-1''\<rparr>)
               else e)
         container"

text \<open>
  The document as the modal sees it. \<^verbatim>\<open>rootContainer\<close> and \<^verbatim>\<open>modalContainer\<close> are the results of
  the two \<^verbatim>\<open>document.querySelector\<close> calls (\<open>None\<close> for \<^verbatim>\<open>null\<close>); the modal's \<^verbatim>\<open>div\<close> is
  prepended to \<^verbatim>\<open>document.body\<close>, outside the root. \<^verbatim>\<open>body_style\<close> is \<open>Some top\<close> for
  \<^verbatim>\<open>position: fixed; top: <top>px; width: 100%;\<close> and \<open>None\<close> when the attribute is absent.
\<close>

datatype focus = ExitButton | FocusAfterExit | Elsewhere

record page =
  rootContainer :: "element list option"
  modalContainer :: "element list option"
  pageYOffset :: real
  body_style :: "real option"
  keydown :: bool
  activeElement :: focus

text \<open>\<^verbatim>\<open>capturePosition\<close>: both functions close over the offset read when it was called.\<close>

definition freeze :: "real \<Rightarrow> page \<Rightarrow> page" where
  "freeze cachedPosition p = p\<lparr>body_style := Some (cachedPosition * -1)\<rparr>"

definition unfreeze :: "real \<Rightarrow> page \<Rightarrow> page" where
  "unfreeze cachedPosition p = p\<lparr>body_style := None, pageYOffset := cachedPosition\<rparr>"

text \<open>
  The component: the \<^verbatim>\<open>isOpen\<close> prop, the \<^verbatim>\<open>initialRender\<close> ref, whether the exit button ref is
  set and \<^verbatim>\<open>focusAfterExit\<close> given, the pending \<^verbatim>\<open>setTimeout(..., 0)\<close> (with whether the
  \<^verbatim>\<open>modalContainer\<close> it captured was non-null), and the cleanup returned by the last run of the
  effect: \<open>Some c\<close> when that run had \<^verbatim>\<open>isOpen\<close> true, with \<open>c\<close> the offset its
  \<^verbatim>\<open>capturePosition()\<close> read.
\<close>

record modal =
  page :: page
  isOpen :: bool
  modal_initialRender :: bool
  exitButton :: bool
  focusAfterExit :: bool
  deferred :: "bool option"
  cleanup :: "real option"

definition on_container :: "toggle \<Rightarrow> element list option \<Rightarrow> element list option" where
  "on_container ty c = map_option (toggleTabIndex ty) c"

definition run_cleanup :: "modal \<Rightarrow> modal" where
  "run_cleanup m =
     (case cleanup m of
        None \<Rightarrow> m
      | Some c \<Rightarrow> m\<lparr>page := unfreeze c ((page m)\<lparr>keydown := False\<rparr>), cleanup := None\<rparr>)"

definition effect :: "modal \<Rightarrow> modal" where
  "effect m =
     (let p = page m; cachedPosition = pageYOffset p in
      if isOpen m then
        (let p1 = (if exitButton m then p\<lparr>activeElement := ExitButton\<rparr> else p);
             p2 = p1\<lparr>modalContainer := on_container On (modalContainer p1)\<rparr>;
             p3 = p2\<lparr>rootContainer := on_container Off (rootContainer p2)\<rparr>;
             p4 = p3\<lparr>keydown := True\<rparr>;
             p5 = freeze cachedPosition p4
         in m\<lparr>page := p5, cleanup := Some cachedPosition\<rparr>)
      else
        (let p1 = p\<lparr>modalContainer := on_container Off (modalContainer p)\<rparr>;
             p2 = p1\<lparr>rootContainer := on_container On (rootContainer p1)\<rparr>;
             p3 = p2\<lparr>keydown := False\<rparr>;
             p4 = unfreeze cachedPosition p3;
             p5 = (if focusAfterExit m then p4\<lparr>activeElement := FocusAfterExit\<rparr> else p4);
             m1 = m\<lparr>page := p5, cleanup := None\<rparr>
         in if \<not> modal_initialRender m1
            then m1\<lparr>modal_initialRender := True, deferred := Some (modalContainer p \<noteq> None)\<rparr>
            else m1))"

text \<open>
  Events: a render with an \<^verbatim>\<open>isOpen\<close> prop (the effect depends on \<^verbatim>\<open>[isOpen]\<close> only, and the
  previous cleanup runs first), the deferred timeout firing, the window being scrolled (by the
  user or by the browser), and the portal's content being rendered into the modal's \<^verbatim>\<open>div\<close>.
\<close>

datatype modal_event =
    SetOpen bool
  | TimeoutFired
  | Scrolled real
  | ContentRendered "element list"

fun modal_step :: "modal_event \<Rightarrow> modal \<Rightarrow> modal" where
  "modal_step (SetOpen b) m =
     (if b = isOpen m then m else effect ((run_cleanup m)\<lparr>isOpen := b\<rparr>))"
| "modal_step TimeoutFired m =
     (case deferred m of
        None \<Rightarrow> m
      | Some captured \<Rightarrow>
          (if captured
           then m\<lparr>page := (page m)\<lparr>modalContainer := on_container Off (modalContainer (page m))\<rparr>,
                  deferred := None\<rparr>
           else m\<lparr>deferred := None\<rparr>))"
| "modal_step (Scrolled y) m = m\<lparr>page := (page m)\<lparr>pageYOffset := y\<rparr>\<rparr>"
| "modal_step (ContentRendered els) m =
     m\<lparr>page := (page m)\<lparr>modalContainer := Some els\<rparr>, exitButton := True\<rparr>"

fun modal_run :: "modal_event list \<Rightarrow> modal \<Rightarrow> modal" where
  "modal_run [] m = m"
| "modal_run (e # es) m = modal_run es (modal_step e m)"

text \<open>Mounting runs the effect once with the initial prop.\<close>

definition modal_mount :: "bool \<Rightarrow> bool \<Rightarrow> page \<Rightarrow> modal" where
  "modal_mount b fae p =
     effect \<lparr>page = p, isOpen = b, modal_initialRender = False, exitButton = False,
             focusAfterExit = fae, deferred = None, cleanup = None\<rparr>"

text \<open>
  For the statements and proofs: the value of \<^verbatim>\<open>isOpen\<close> after a sequence of events, the events
  that are not renders with an \<^verbatim>\<open>isOpen\<close> prop, and three invariants of the component.
\<close>

definition final_open :: "bool \<Rightarrow> modal_event list \<Rightarrow> bool" where
  "final_open b evs = foldl (\<lambda>cur e. case e of SetOpen b' \<Rightarrow> b' | _ \<Rightarrow> cur) b evs"

fun is_SetOpen :: "modal_event \<Rightarrow> bool" where
  "is_SetOpen (SetOpen b) = True"
| "is_SetOpen _ = False"

definition root_inv :: "element list \<Rightarrow> modal \<Rightarrow> bool" where
  "root_inv els m =
     (rootContainer (page m) = Some (toggleTabIndex (if isOpen m then Off else On) els))"

definition cleanup_inv :: "modal \<Rightarrow> bool" where
  "cleanup_inv m = (isOpen m = (cleanup m \<noteq> None))"

definition frozen_at :: "real \<Rightarrow> modal \<Rightarrow> bool" where
  "frozen_at y m = (isOpen m \<and> cleanup m = Some y \<and> body_style (page m) = Some (- y))"

section \<open>The scroll animator\<close>

text \<open>
  Source: \<^verbatim>\<open>content/posts/how-to-make-scrollto-work-across-browsers/index.mdx\<close>, the function
  \<^verbatim>\<open>scroll\<close> and its inner \<^verbatim>\<open>animate\<close>. JavaScript numbers are taken as reals and
  \<^verbatim>\<open>Date.now()\<close> readings are passed in. The arguments are the destructured options;
  \<^verbatim>\<open>target_top\<close> is \<^verbatim>\<open>target.getBoundingClientRect().top\<close>, and \<^verbatim>\<open>callback\<close> says whether
  a callback was given.
\<close>

record scroll_options =
  target_top :: real
  callback :: bool
  duration :: "real option"
  easingFn :: "(real \<Rightarrow> real) option"
  offset :: "real option"

definition duration_of :: "scroll_options \<Rightarrow> real" where
  "duration_of a = (case duration a of None \<Rightarrow> 500 | Some d \<Rightarrow> d)"

definition easingFn_of :: "scroll_options \<Rightarrow> real \<Rightarrow> real" where
  "easingFn_of a = (case easingFn a of None \<Rightarrow> (\<lambda>t. t * t * t * t) | Some f \<Rightarrow> f)"

definition offset_of :: "scroll_options \<Rightarrow> real" where
  "offset_of a = (case offset a of None \<Rightarrow> 0 | Some d \<Rightarrow> d)"

text \<open>
  The closure of one \<^verbatim>\<open>scroll\<close> call and what it acts on: \<^verbatim>\<open>transform\<close> is \<open>Some y\<close> for
  \<^verbatim>\<open>base.style.transform = translateY(<y>px)\<close> and \<open>None\<close> while the call has not written it;
  \<^verbatim>\<open>scrollTop\<close> is the window's scroll position; \<^verbatim>\<open>frame_requested\<close> and \<^verbatim>\<open>timeout_set\<close> are
  the pending \<^verbatim>\<open>requestAnimationFrame\<close> and \<^verbatim>\<open>setTimeout\<close> callbacks; \<^verbatim>\<open>animationId\<close> counts
  the frame requests. Calling an absent callback throws.
\<close>

record animator =
  options :: scroll_options
  cachePosition :: real
  startTime :: real
  animationId :: "nat option"
  frame_requested :: bool
  timeout_set :: bool
  transform :: "real option"
  scrollTop :: real
  callbacks :: nat
  uncaught :: "jserror option"

definition translate_of :: "animator \<Rightarrow> real \<Rightarrow> real" where
  "translate_of a elapsed =
     (let ease = easingFn_of (options a) (elapsed / duration_of (options a))
      in if ease > 1 then cachePosition a * -1
         else ease * (target_top (options a) + offset_of (options a)) * -1)"

definition animate :: "real \<Rightarrow> animator \<Rightarrow> animator" where
  "animate date_now a =
     (let elapsed = date_now - startTime a in
      if elapsed < duration_of (options a)
      then a\<lparr>transform := Some (translate_of a elapsed),
             animationId := Some (case animationId a of None \<Rightarrow> 1 | Some i \<Rightarrow> i + 1),
             frame_requested := True\<rparr>
      else a\<lparr>timeout_set := True\<rparr>)"

definition finish :: "animator \<Rightarrow> animator" where
  "finish a =
     (let a1 = a\<lparr>frame_requested := False, transform := Some 0, scrollTop := cachePosition a,
                 timeout_set := False\<rparr>
      in if callback (options a) then a1\<lparr>callbacks := callbacks a1 + 1\<rparr>
         else a1\<lparr>uncaught := Some TypeError\<rparr>)"

text \<open>
  \<^verbatim>\<open>scroll\<close> reads the target's position, the window offset and the clock, then calls
  \<^verbatim>\<open>animate\<close> once; it returns nothing to its caller.
\<close>

definition scroll :: "scroll_options \<Rightarrow> real \<Rightarrow> real \<Rightarrow> real \<Rightarrow> animator" where
  "scroll a window_pageYOffset start_now first_now =
     animate first_now
       \<lparr>options = a, cachePosition = target_top a + offset_of a + window_pageYOffset,
        startTime = start_now, animationId = None, frame_requested = False,
        timeout_set = False, transform = None, scrollTop = window_pageYOffset, callbacks = 0,
        uncaught = None\<rparr>"

text \<open>The two callbacks the browser can run: a frame (with the clock reading) and the timeout.\<close>

datatype anim_event = Frame real | Timeout

fun anim_step :: "anim_event \<Rightarrow> animator \<Rightarrow> animator" where
  "anim_step (Frame t) a =
     (if frame_requested a then animate t (a\<lparr>frame_requested := False\<rparr>) else a)"
| "anim_step Timeout a = (if timeout_set a then finish a else a)"

fun anim_run :: "anim_event list \<Rightarrow> animator \<Rightarrow> animator" where
  "anim_run [] a = a"
| "anim_run (e # es) a = anim_run es (anim_step e a)"

text \<open>
  For the proofs: the animation started by \<^verbatim>\<open>scroll a\<close> at window offset \<open>y\<close> and time \<open>s\<close> is
  under way, with a frame requested and the completion timeout not set.
\<close>

definition running :: "scroll_options \<Rightarrow> real \<Rightarrow> real \<Rightarrow> animator \<Rightarrow> bool" where
  "running a y s st =
     (options st = a \<and> cachePosition st = target_top a + offset_of a + y \<and> startTime st = s
      \<and> frame_requested st \<and> \<not> timeout_set st \<and> scrollTop st = y)"

section \<open>The SEO component\<close>

text \<open>
  Source: \<^verbatim>\<open>src/components/shared/seo.tsx\<close>. Optional props are options (the \<^verbatim>\<open>keywords\<close> prop is the field \<open>keywords_prop\<close>); a meta entry has a
  \<^verbatim>\<open>name\<close> or a \<^verbatim>\<open>property\<close>, and its \<^verbatim>\<open>content\<close> may be undefined (the \<^verbatim>\<open>title\<close> prop is
  passed on as it is). The result is the props handed to \<^verbatim>\<open>Helmet\<close>, whose title template
  \<^verbatim>\<open>%s\<close> renders the title unchanged.
\<close>

record meta_entry =
  meta_name :: "string option"
  meta_property :: "string option"
  meta_content :: "string option"

record SEOProps =
  title :: "string option"
  description :: "string option"
  lang :: "string option"
  keywords_prop :: "string list option"
  meta :: "meta_entry list option"

record siteMetadata =
  site_title :: string
  site_description :: string
  site_author :: string

record helmet =
  htmlAttributes_lang :: string
  helmet_title :: string
  titleTemplate :: string
  helmet_meta :: "meta_entry list"

text \<open>\<^verbatim>\<open>a || b\<close> on an optional string: \<^verbatim>\<open>undefined\<close> and the empty string are falsy.\<close>

definition or_else :: "string option \<Rightarrow> string \<Rightarrow> string" where
  "or_else a b = (case a of None \<Rightarrow> b | Some s \<Rightarrow> if s = [] then b else s)"

text \<open>\<^verbatim>\<open>Array.prototype.join\<close>.\<close>

fun join :: "string \<Rightarrow> string list \<Rightarrow> string" where
  "join sep [] = []"
| "join sep [x] = x"
| "join sep (x # y # r) = x @ sep @ join sep (y # r)"

definition named :: "string \<Rightarrow> string option \<Rightarrow> meta_entry" where
  "named n c = \<lparr>meta_name = Some n, meta_property = None, meta_content = c\<rparr>"

definition property :: "string \<Rightarrow> string option \<Rightarrow> meta_entry" where
  "property n c = \<lparr>meta_name = None, meta_property = Some n, meta_content = c\<rparr>"

definition SEO :: "SEOProps \<Rightarrow> siteMetadata \<Rightarrow> helmet" where
  "SEO props site =
     (let lang' = (case lang props of None \<Rightarrow> ''en'' | Some l \<Rightarrow> l);
          meta' = (case meta props of None \<Rightarrow> [] | Some m \<Rightarrow> m);
          keywords' = (case keywords_prop props of None \<Rightarrow> [] | Some k \<Rightarrow> k);
          metaTitle = or_else (title props) (site_title site);
          metaDescription = or_else (description props) (site_description site)
      in \<lparr>htmlAttributes_lang = lang',
          helmet_title = metaTitle,
          titleTemplate = ''%s'',
          helmet_meta =
            [named ''google-site-verification''
               (Some ''joDHdTdb56PSG3inAa0NTavlVPlKpbJSIZM0OfTfImI''),
             named ''description'' (Some metaDescription),
             property ''og:title'' (title props),
             property ''og:description'' (Some metaDescription),
             property ''og:type'' (Some ''website''),
             named ''twitter:card'' (Some ''summary''),
             named ''twitter:creator'' (Some (site_author site)),
             named ''twitter:title'' (title props),
             named ''twitter:description'' (Some metaDescription)]
            @ (if length keywords' > 0
               then [named ''keywords'' (Some (join '', '' keywords'))]
               else [])
            @ meta'\<rparr>)"

definition has_keywords_entry :: "helmet \<Rightarrow> bool" where
  "has_keywords_entry h = (\<exists>e \<in> set (helmet_meta h). meta_name e = Some ''keywords'')"

section \<open>Properties of the reducer\<close>

text \<open>
  C3 (counterexample). The claim ends with: every failure leaves the hook in a no-results state.
  The three failure cases of the reducer spread \<^verbatim>\<open>...state\<close> and do not touch \<^verbatim>\<open>results\<close>: after a
  successful response, a \<^verbatim>\<open>REQUEST_DENIED\<close> response keeps the earlier results beside the error.
\<close>

theorem reducer_failure_keeps_results_counterexample:
  "reducer \<lparr>results = ResponseData \<lparr>status = ''OK'', predictions = [''Paris'']\<rparr>,
             isLoading = True, error = None\<rparr>
           \<lparr>atype = ''REQUEST_DENIED'',
            payload = Some \<lparr>status = ''REQUEST_DENIED'', predictions = []\<rparr>\<rparr>
     = Inr \<lparr>results = ResponseData \<lparr>status = ''OK'', predictions = [''Paris'']\<rparr>,
            isLoading = False, error = Some ''Invalid 'key' parameter''\<rparr>
   \<and> ResponseData \<lparr>status = ''OK'', predictions = [''Paris'']\<rparr> \<noteq> EmptyArray"
  by (simp add: reducer_def)

text \<open>
  C3 (amended). For every state and payload: \<^verbatim>\<open>OK\<close> replaces the results by the payload's data and
  clears the error; \<^verbatim>\<open>ZERO_RESULTS\<close> empties the results and clears the error;
  \<^verbatim>\<open>REQUEST_DENIED\<close> and \<^verbatim>\<open>UNKNOWN_ERROR\<close> each set their own message, and the two messages
  differ; \<^verbatim>\<open>INVALID_REQUEST\<close> clears the error. All of them end loading, none of them throws when
  a payload is present, and the three failure statuses leave \<^verbatim>\<open>results\<close> as it was.
\<close>

theorem reducer_status_cases:
  "reducer s \<lparr>atype = ''OK'', payload = Some d\<rparr>
     = Inr (s\<lparr>results := ResponseData d, isLoading := False, error := None\<rparr>)
   \<and> reducer s \<lparr>atype = ''ZERO_RESULTS'', payload = p\<rparr>
     = Inr (s\<lparr>results := EmptyArray, isLoading := False, error := None\<rparr>)
   \<and> reducer s \<lparr>atype = ''REQUEST_DENIED'', payload = p\<rparr>
     = Inr (s\<lparr>isLoading := False, error := Some ''Invalid 'key' parameter''\<rparr>)
   \<and> reducer s \<lparr>atype = ''UNKNOWN_ERROR'', payload = p\<rparr>
     = Inr (s\<lparr>isLoading := False, error := Some ''Unknown error, refresh and try again.''\<rparr>)
   \<and> reducer s \<lparr>atype = ''INVALID_REQUEST'', payload = p\<rparr>
     = Inr (s\<lparr>isLoading := False, error := None\<rparr>)
   \<and> ''Invalid 'key' parameter'' \<noteq> ''Unknown error, refresh and try again.''"
  by (simp add: reducer_def)

text \<open>
  C9. An action whose type is none of the six handled strings takes the \<^verbatim>\<open>default\<close> branch: the
  reducer returns its input state. In particular, after a \<^verbatim>\<open>LOADING\<close> dispatch such an action
  leaves \<^verbatim>\<open>isLoading\<close> true and \<^verbatim>\<open>results\<close> and \<^verbatim>\<open>error\<close> as they were.
\<close>

theorem reducer_default_unchanged:
  assumes "atype a \<notin> set handled_types"
  shows "reducer s a = Inr s
     \<and> (case reducer s \<lparr>atype = ''LOADING'', payload = None\<rparr> of
          Inl e \<Rightarrow> False
        | Inr s' \<Rightarrow> reducer s' a = Inr s' \<and> isLoading s' \<and> results s' = results s
                    \<and> error s' = error s)"
  using assms by (auto simp: reducer_def handled_types_def)

theorem reducer_default_unchanged_witness:
  "''OVER_QUERY_LIMIT'' \<notin> set handled_types
   \<and> reducer initialState \<lparr>atype = ''OVER_QUERY_LIMIT'', payload = None\<rparr> = Inr initialState
   \<and> reducer (initialState\<lparr>isLoading := True\<rparr>) \<lparr>atype = ''OVER_QUERY_LIMIT'', payload = None\<rparr>
       = Inr (initialState\<lparr>isLoading := True\<rparr>)"
  using reducer_default_unchanged
    [of "\<lparr>atype = ''OVER_QUERY_LIMIT'', payload = None\<rparr>" initialState]
  by (simp add: handled_types_def reducer_def)

section \<open>Properties of the autocomplete hook\<close>

subsection \<open>Time passing\<close>

lemma later_frame:
  "query (later t h) = query h \<and> initialRender (later t h) = initialRender h
   \<and> aborted (later t h) = aborted h \<and> rstate (later t h) = rstate h
   \<and> now (later t h) = now h \<and> sessionToken (later t h) = sessionToken h
   \<and> uuid_calls (later t h) = uuid_calls h
   \<and> sessionTokenTimeout (later t h) = sessionTokenTimeout h
   \<and> timers (later t h) = timers h \<and> timer_ids (later t h) = timer_ids h"
  by (auto simp: later_def fetch_def Let_def split: option.splits)

lemma later_unmounted:
  "aborted h \<Longrightarrow> inflight (later t h) = inflight h \<and> issued (later t h) = issued h"
  by (auto simp: later_def fetch_def Let_def split: option.splits)

lemma foldl_later_frame:
  "query (foldl (\<lambda>h' t. later t h') h ts) = query h
   \<and> initialRender (foldl (\<lambda>h' t. later t h') h ts) = initialRender h
   \<and> aborted (foldl (\<lambda>h' t. later t h') h ts) = aborted h
   \<and> rstate (foldl (\<lambda>h' t. later t h') h ts) = rstate h
   \<and> now (foldl (\<lambda>h' t. later t h') h ts) = now h
   \<and> sessionToken (foldl (\<lambda>h' t. later t h') h ts) = sessionToken h
   \<and> uuid_calls (foldl (\<lambda>h' t. later t h') h ts) = uuid_calls h
   \<and> sessionTokenTimeout (foldl (\<lambda>h' t. later t h') h ts) = sessionTokenTimeout h
   \<and> timers (foldl (\<lambda>h' t. later t h') h ts) = timers h
   \<and> timer_ids (foldl (\<lambda>h' t. later t h') h ts) = timer_ids h"
  by (induction ts arbitrary: h) (simp_all add: later_frame)

lemma foldl_later_unmounted:
  "aborted h \<Longrightarrow> inflight (foldl (\<lambda>h' t. later t h') h ts) = inflight h"
proof (induction ts arbitrary: h)
  case Nil
  then show ?case by simp
next
  case (Cons t ts)
  then show ?case using later_unmounted [of h t] later_frame [of t h] by simp
qed

lemma fire_timeouts_frame:
  "query (fire_timeouts h) = query h \<and> initialRender (fire_timeouts h) = initialRender h
   \<and> aborted (fire_timeouts h) = aborted h \<and> rstate (fire_timeouts h) = rstate h
   \<and> now (fire_timeouts h) = now h \<and> sessionToken (fire_timeouts h) = sessionToken h
   \<and> uuid_calls (fire_timeouts h) = uuid_calls h
   \<and> sessionTokenTimeout (fire_timeouts h) = sessionTokenTimeout h"
  by (simp add: fire_timeouts_def foldl_later_frame)

lemma fire_interval_frame:
  "query (fire_interval h) = query h \<and> initialRender (fire_interval h) = initialRender h
   \<and> aborted (fire_interval h) = aborted h \<and> rstate (fire_interval h) = rstate h
   \<and> now (fire_interval h) = now h \<and> timers (fire_interval h) = timers h
   \<and> debouncedFn (fire_interval h) = debouncedFn h \<and> issued (fire_interval h) = issued h
   \<and> inflight (fire_interval h) = inflight h \<and> timer_ids (fire_interval h) = timer_ids h"
  by (simp add: fire_interval_def resetSessionToken_def split: option.splits)

lemma tick_frame:
  "query (tick h) = query h" "initialRender (tick h) = initialRender h"
  "aborted (tick h) = aborted h" "rstate (tick h) = rstate h" "now (tick h) = now h + 1"
  by (simp_all add: tick_def fire_timeouts_frame fire_interval_frame)

lemma advance_frame:
  "query (advance n h) = query h \<and> initialRender (advance n h) = initialRender h
   \<and> aborted (advance n h) = aborted h \<and> rstate (advance n h) = rstate h
   \<and> now (advance n h) = now h + n"
  by (induction n arbitrary: h) (simp_all add: tick_frame)

lemma tick_pending:
  assumes "timers h = [t]" "now h + 1 < due t"
  shows "timers (tick h) = [t] \<and> debouncedFn (tick h) = debouncedFn h
     \<and> issued (tick h) = issued h \<and> timer_ids (tick h) = timer_ids h"
  using assms by (simp add: tick_def fire_timeouts_def fire_interval_frame)

lemma tick_idle:
  assumes "timers h = []"
  shows "timers (tick h) = [] \<and> debouncedFn (tick h) = debouncedFn h
     \<and> issued (tick h) = issued h \<and> timer_ids (tick h) = timer_ids h"
  using assms by (simp add: tick_def fire_timeouts_def fire_interval_frame)

lemma tick_fire:
  assumes "timers h = [t]" "due t \<le> now h + 1" "\<not> later_immediate t" "\<not> aborted h"
  shows "timers (tick h) = []
     \<and> map key (issued (tick h)) = map key (issued h) @ [(Autocomplete, later_query t)]
     \<and> (case debouncedFn h of
          None \<Rightarrow> debouncedFn (tick h) = None
        | Some d \<Rightarrow> debouncedFn (tick h)
            = Some (if timeout d = Some (tid t) then d\<lparr>timeout := None\<rparr> else d))"
  using assms
  by (auto simp: tick_def fire_timeouts_def fire_interval_frame later_def fetch_def key_def
      Let_def split: option.splits)

lemma advance_pending:
  assumes "timers h = [t]" "now h + n < due t"
  shows "timers (advance n h) = [t] \<and> debouncedFn (advance n h) = debouncedFn h
     \<and> issued (advance n h) = issued h"
  using assms
proof (induction n arbitrary: h)
  case 0
  then show ?case by simp
next
  case (Suc n)
  have "timers (tick h) = [t] \<and> debouncedFn (tick h) = debouncedFn h
      \<and> issued (tick h) = issued h \<and> timer_ids (tick h) = timer_ids h"
    using Suc.prems by (intro tick_pending) auto
  moreover have "now (tick h) + n < due t"
    using Suc.prems by (simp add: tick_frame)
  ultimately show ?case
    using Suc.IH [of "tick h"] by simp
qed

lemma advance_idle:
  assumes "timers h = []"
  shows "timers (advance n h) = [] \<and> debouncedFn (advance n h) = debouncedFn h
     \<and> issued (advance n h) = issued h"
  using assms
proof (induction n arbitrary: h)
  case 0
  then show ?case by simp
next
  case (Suc n)
  then show ?case using tick_idle [of h] by simp
qed

lemma advance_fire:
  assumes "timers h = [t]" "now h < due t" "due t \<le> now h + n"
    "\<not> later_immediate t" "\<not> aborted h"
  shows "map key (issued (advance n h)) = map key (issued h) @ [(Autocomplete, later_query t)]"
  using assms
proof (induction n arbitrary: h)
  case 0
  then show ?case by simp
next
  case (Suc n)
  show ?case
  proof (cases "due t \<le> now h + 1")
    case True
    have f: "timers (tick h) = []
        \<and> map key (issued (tick h)) = map key (issued h) @ [(Autocomplete, later_query t)]"
      using tick_fire [OF Suc.prems(1) True Suc.prems(4,5)] by blast
    then have "issued (advance n (tick h)) = issued (tick h)"
      using advance_idle [of "tick h" n] by simp
    with f show ?thesis by simp
  next
    case False
    then have p: "timers (tick h) = [t] \<and> issued (tick h) = issued h"
      using Suc.prems tick_pending [of h t] by simp
    have "map key (issued (advance n (tick h)))
        = map key (issued (tick h)) @ [(Autocomplete, later_query t)]"
      using Suc.prems False p by (intro Suc.IH) (auto simp: tick_frame)
    with p show ?thesis by simp
  qed
qed

subsection \<open>The browser holds at most the timer of the current closure\<close>

lemma tick_timer_inv:
  assumes "timer_inv h"
  shows "timer_inv (tick h)"
proof (cases "timers h")
  case Nil
  then show ?thesis using assms tick_idle [of h]
    by (simp add: timer_inv_def)
next
  case (Cons t ts)
  then have ts: "timers h = [t]" using assms by (simp add: timer_inv_def split: list.splits)
  obtain d where d: "debouncedFn h = Some d" "timeout d = Some (tid t)" "\<not> later_immediate t"
    using assms ts by (auto simp: timer_inv_def split: option.splits)
  show ?thesis
  proof (cases "due t \<le> now h + 1")
    case True
    have "timers (tick h) = [] \<and> debouncedFn (tick h) = Some (d\<lparr>timeout := None\<rparr>)"
      using ts True d
      by (auto simp: tick_def fire_timeouts_def fire_interval_frame later_def fetch_def Let_def)
    then show ?thesis by (simp add: timer_inv_def)
  next
    case False
    then show ?thesis using tick_pending [of h t] ts d
      by (simp add: timer_inv_def tick_frame)
  qed
qed

lemma advance_timer_inv: "timer_inv h \<Longrightarrow> timer_inv (advance n h)"
  by (induction n arbitrary: h) (simp_all add: tick_timer_inv)

lemma setQuery_arms:
  assumes "timer_inv h" "\<not> aborted h" "initialRender h" "q \<noteq> query h"
  shows "timers (step (SetQuery q) h)
           = [\<lparr>tid = Suc (timer_ids h), due = now h + 400, later_query = q,
               later_immediate = False\<rparr>]
     \<and> issued (step (SetQuery q) h) = issued h \<and> now (step (SetQuery q) h) = now h
     \<and> \<not> aborted (step (SetQuery q) h) \<and> initialRender (step (SetQuery q) h)
     \<and> query (step (SetQuery q) h) = q \<and> timer_inv (step (SetQuery q) h)"
  using assms
  by (auto simp: timer_inv_def queryEffect_def dispatch_def reducer_def executedFunction_def
      debounce_def clear_def clearTimeout_def setTimeout_def Let_def
      split: sum.splits list.splits option.splits)

lemma queryEffect_timer_inv:
  assumes "timer_inv h"
  shows "timer_inv (queryEffect h)"
  using assms
  by (auto simp: timer_inv_def queryEffect_def dispatch_def reducer_def executedFunction_def
      debounce_def clear_def clearTimeout_def setTimeout_def Let_def
      split: sum.splits list.splits option.splits)

lemma timer_inv_cong:
  assumes "timers h' = timers h" "debouncedFn h' = debouncedFn h" "now h' = now h"
  shows "timer_inv h' = timer_inv h"
  unfolding timer_inv_def assms ..

lemma resolve_frame:
  "timers (step (Resolve i d) h) = timers h
   \<and> debouncedFn (step (Resolve i d) h) = debouncedFn h
   \<and> now (step (Resolve i d) h) = now h"
  by (auto simp: dispatch_def settle_def resetSessionToken_def
      split: option.splits endpoint.splits sum.splits)

lemma step_timer_inv:
  assumes "timer_inv h"
  shows "timer_inv (step e h)"
proof (cases e)
  case (SetQuery q)
  have "timer_inv (h\<lparr>query := q\<rparr>)"
    using assms timer_inv_cong [of "h\<lparr>query := q\<rparr>" h] by simp
  then show ?thesis using SetQuery assms queryEffect_timer_inv by simp
next
  case (Advance n)
  then show ?thesis using assms by (simp add: advance_timer_inv)
next
  case (Resolve i d)
  then show ?thesis
    using assms timer_inv_cong [of "step (Resolve i d) h" h] resolve_frame [of i d h]
    by blast
next
  case (Reject i)
  then show ?thesis using assms timer_inv_cong [of "settle i h" h] by (simp add: settle_def)
next
  case (GetPlaceDetails p)
  then show ?thesis using assms timer_inv_cong [of "fetch Details p h" h]
    by (simp add: fetch_def Let_def)
next
  case Unmount
  then show ?thesis
    using assms
      timer_inv_cong [of "h\<lparr>sessionTokenTimeout := None, aborted := True, inflight := []\<rparr>" h]
    by simp
qed

lemma step_initialRender: "initialRender h \<Longrightarrow> initialRender (step e h)"
  by (cases e)
     (auto simp: queryEffect_def dispatch_def executedFunction_def debounce_def clear_def
       clearTimeout_def setTimeout_def settle_def resetSessionToken_def fetch_def
       advance_frame Let_def split: option.splits sum.splits endpoint.splits)

lemma mount_eq:
  "mount q = \<lparr>rstate = initialState, query = q, initialRender = True, debouncedFn = None,
        timers = [], timer_ids = 0,
        sessionToken = 0, uuid_calls = 1, sessionTokenTimeout = Some 180000, aborted = False,
        inflight = [], issued = [], now = 0\<rparr>"
  by (simp add: mount_def mountEffect_def queryEffect_def)

lemma reachable_inv:
  "timer_inv (run es (mount q0)) \<and> initialRender (run es (mount q0))"
proof -
  have "timer_inv h \<and> initialRender h \<Longrightarrow> timer_inv (run es h) \<and> initialRender (run es h)"
    for h
    by (induction es arbitrary: h) (simp_all add: step_timer_inv step_initialRender)
  moreover have "timer_inv (mount q0) \<and> initialRender (mount q0)"
    by (simp add: mount_eq timer_inv_def)
  ultimately show ?thesis by blast
qed

lemma run_append: "run (xs @ ys) h = run ys (run xs h)"
  by (induction xs arbitrary: h) simp_all

subsection \<open>Evaluating time passing\<close>

lemma tick_quiet:
  assumes "quiet_until (now h + 1) h"
  shows "tick h = h\<lparr>now := now h + 1\<rparr>"
proof -
  have a: "list_all (\<lambda>x. Suc (now h) < due x) (timers h)"
    using assms by (simp add: quiet_until_def)
  have 1: "filter (\<lambda>t. due t \<le> Suc (now h)) (timers h) = []"
    using a by (auto simp: list_all_iff filter_empty_conv)
  have 2: "filter (\<lambda>t. \<not> due t \<le> Suc (now h)) (timers h) = timers h"
    using a by (auto simp: list_all_iff filter_id_conv)
  have 3: "fire_interval (h\<lparr>now := Suc (now h)\<rparr>) = h\<lparr>now := Suc (now h)\<rparr>"
    using assms by (auto simp: quiet_until_def fire_interval_def split: option.splits)
  show ?thesis by (simp add: tick_def 3 fire_timeouts_def 1 2)
qed

lemma quiet_until_mono:
  "quiet_until t h \<Longrightarrow> s \<le> t \<Longrightarrow> quiet_until s (h\<lparr>now := m\<rparr>)"
  by (auto simp: quiet_until_def list_all_iff split: option.splits)

lemma advance_quiet:
  assumes "quiet_until (now h + n) h"
  shows "advance n h = h\<lparr>now := now h + n\<rparr>"
  using assms
proof (induction n arbitrary: h)
  case 0
  then show ?case by simp
next
  case (Suc n)
  have q1: "quiet_until (now h + 1) h"
    using quiet_until_mono [OF Suc.prems, of "now h + 1" "now h"] by simp
  have t: "tick h = h\<lparr>now := now h + 1\<rparr>"
    using tick_quiet [OF q1] .
  have "quiet_until (now (tick h) + n) (tick h)"
    using quiet_until_mono [OF Suc.prems, of "now h + Suc n" "now h + 1"] t by simp
  then have "advance n (tick h) = (tick h)\<lparr>now := now (tick h) + n\<rparr>"
    by (rule Suc.IH)
  then show ?case using t by simp
qed

lemma advance_add: "advance (m + n) h = advance n (advance m h)"
  by (induction m arbitrary: h) simp_all

lemma tick_fire_exact:
  assumes "timers h = [t]" "due t = now h + 1" "\<not> later_immediate t"
    "debouncedFn h = Some d" "timeout d = Some (tid t)"
    "\<not> aborted h" "sessionTokenTimeout h = Some u" "now h + 1 < u"
  shows "tick h = h\<lparr>now := now h + 1, timers := [],
       debouncedFn := Some (d\<lparr>timeout := None\<rparr>),
       inflight := inflight h @ [\<lparr>rid = length (issued h), endpoint = Autocomplete,
          input = later_query t, sessiontoken = sessionToken h\<rparr>],
       issued := issued h @ [\<lparr>rid = length (issued h), endpoint = Autocomplete,
          input = later_query t, sessiontoken = sessionToken h\<rparr>]\<rparr>"
  using assms
  by (simp add: tick_def fire_timeouts_def fire_interval_def later_def fetch_def Let_def)

lemma advance_fire_exact:
  assumes "timers h = [t]" "due t = now h + Suc m" "\<not> later_immediate t"
    "debouncedFn h = Some d" "timeout d = Some (tid t)"
    "\<not> aborted h" "sessionTokenTimeout h = Some u" "now h + Suc m + n < u"
  shows "advance (m + Suc n) h
     = h\<lparr>now := now h + m + Suc n, timers := [],
       debouncedFn := Some (d\<lparr>timeout := None\<rparr>),
       inflight := inflight h @ [\<lparr>rid = length (issued h), endpoint = Autocomplete,
          input = later_query t, sessiontoken = sessionToken h\<rparr>],
       issued := issued h @ [\<lparr>rid = length (issued h), endpoint = Autocomplete,
          input = later_query t, sessiontoken = sessionToken h\<rparr>]\<rparr>"
proof -
  let ?h1 = "h\<lparr>now := now h + m\<rparr>"
  have q: "quiet_until (now h + m) h"
    using assms by (simp add: quiet_until_def)
  have a1: "advance m h = ?h1" using advance_quiet [OF q] .
  have t: "tick ?h1 = ?h1\<lparr>now := now ?h1 + 1, timers := [],
       debouncedFn := Some (d\<lparr>timeout := None\<rparr>),
       inflight := inflight ?h1 @ [\<lparr>rid = length (issued ?h1), endpoint = Autocomplete,
          input = later_query t, sessiontoken = sessionToken ?h1\<rparr>],
       issued := issued ?h1 @ [\<lparr>rid = length (issued ?h1), endpoint = Autocomplete,
          input = later_query t, sessiontoken = sessionToken ?h1\<rparr>]\<rparr>"
    using assms by (intro tick_fire_exact [where u = u]) simp_all
  have q2: "quiet_until (now (tick ?h1) + n) (tick ?h1)"
    using assms by (simp add: t quiet_until_def)
  have "advance (m + Suc n) h = advance n (tick ?h1)"
    by (simp only: advance_add advance.simps a1)
  also have "\<dots> = (tick ?h1)\<lparr>now := now (tick ?h1) + n\<rparr>"
    using advance_quiet [OF q2] .
  finally show ?thesis by (simp add: t)
qed

lemma typed_a_and_waited:
  "run [SetQuery ''a'', Advance 400] (mount [])
   = \<lparr>rstate = \<lparr>results = EmptyArray, isLoading = True, error = None\<rparr>, query = ''a'',
      initialRender = True,
      debouncedFn = Some \<lparr>timeout = None, wait = 400, immediate = False, func_query = ''a''\<rparr>,
      timers = [], timer_ids = 1,
      sessionToken = 0, uuid_calls = 1, sessionTokenTimeout = Some 180000, aborted = False,
      inflight = [\<lparr>rid = 0, endpoint = Autocomplete, input = ''a'', sessiontoken = 0\<rparr>],
      issued = [\<lparr>rid = 0, endpoint = Autocomplete, input = ''a'', sessiontoken = 0\<rparr>],
      now = 400\<rparr>"
proof -
  let ?h = "step (SetQuery ''a'') (mount [])"
  let ?t = "\<lparr>tid = 1, due = 400, later_query = ''a'', later_immediate = False\<rparr>"
  let ?d = "\<lparr>timeout = Some 1, wait = 400, immediate = False, func_query = ''a''\<rparr>"
  have h: "?h = \<lparr>rstate = \<lparr>results = EmptyArray, isLoading = True, error = None\<rparr>, query = ''a'',
      initialRender = True, debouncedFn = Some ?d, timers = [?t], timer_ids = 1,
      sessionToken = 0, uuid_calls = 1, sessionTokenTimeout = Some 180000, aborted = False,
      inflight = [], issued = [], now = 0\<rparr>"
    by (simp add: mount_eq queryEffect_def dispatch_def reducer_def initialState_def
        executedFunction_def debounce_def clear_def clearTimeout_def setTimeout_def)
  have "advance (399 + Suc 0) ?h = ?h\<lparr>now := now ?h + 399 + Suc 0, timers := [],
       debouncedFn := Some (?d\<lparr>timeout := None\<rparr>),
       inflight := inflight ?h @ [\<lparr>rid = length (issued ?h), endpoint = Autocomplete,
          input = later_query ?t, sessiontoken = sessionToken ?h\<rparr>],
       issued := issued ?h @ [\<lparr>rid = length (issued ?h), endpoint = Autocomplete,
          input = later_query ?t, sessiontoken = sessionToken ?h\<rparr>]\<rparr>"
    by (rule advance_fire_exact [where u = 180000]) (simp_all only: h, simp_all)
  then have "advance 400 ?h = \<lparr>rstate = \<lparr>results = EmptyArray, isLoading = True, error = None\<rparr>, query = ''a'',
      initialRender = True,
      debouncedFn = Some \<lparr>timeout = None, wait = 400, immediate = False, func_query = ''a''\<rparr>,
      timers = [], timer_ids = 1,
      sessionToken = 0, uuid_calls = 1, sessionTokenTimeout = Some 180000, aborted = False,
      inflight = [\<lparr>rid = 0, endpoint = Autocomplete, input = ''a'', sessiontoken = 0\<rparr>],
      issued = [\<lparr>rid = 0, endpoint = Autocomplete, input = ''a'', sessiontoken = 0\<rparr>],
      now = 400\<rparr>"
    by (simp only: h, simp)
  then show ?thesis by simp
qed

lemma tick_unmounted:
  assumes "aborted h" "inflight h = []"
  shows "inflight (tick h) = []"
  using assms
  by (simp add: tick_def fire_timeouts_def foldl_later_unmounted fire_interval_frame)

lemma advance_unmounted:
  assumes "aborted h \<and> inflight h = []"
  shows "inflight (advance n h) = []"
  using assms
proof (induction n arbitrary: h)
  case 0
  then show ?case by simp
next
  case (Suc n)
  then show ?case using tick_unmounted [of h] by (simp add: tick_frame)
qed

subsection \<open>Debouncing and responses\<close>

lemma burst_one_request:
  assumes "timer_inv h" "\<not> aborted h" "initialRender h"
    "distinct_adj (query h # q # map snd r)" "\<forall>(p, q') \<in> set r. p < 400"
  shows "map key (issued (run (SetQuery q # burst r @ [Advance n]) h))
       = map key (issued h)
         @ (if 400 \<le> n then [(Autocomplete, last (q # map snd r))] else [])"
  using assms
proof (induction r arbitrary: h q)
  case Nil
  let ?h1 = "step (SetQuery q) h"
  let ?t = "\<lparr>tid = Suc (timer_ids h), due = now h + 400, later_query = q,
             later_immediate = False\<rparr>"
  have ne: "q \<noteq> query h" using Nil.prems(4) by auto
  have a: "timers ?h1 = [?t] \<and> issued ?h1 = issued h \<and> now ?h1 = now h \<and> \<not> aborted ?h1"
    using setQuery_arms [OF Nil.prems(1,2,3) ne] by blast
  show ?case
  proof (cases "400 \<le> n")
    case True
    have "map key (issued (advance n ?h1)) = map key (issued ?h1) @ [(Autocomplete, q)]"
      using advance_fire [of ?h1 ?t n] a True by simp
    with a True show ?thesis by simp
  next
    case False
    have "issued (advance n ?h1) = issued ?h1"
      using advance_pending [of ?h1 ?t n] a False by simp
    with a False show ?thesis by simp
  qed
next
  case (Cons pq r)
  obtain p q' where pq: "pq = (p, q')" by (cases pq)
  let ?h1 = "step (SetQuery q) h"
  let ?h2 = "advance p ?h1"
  let ?t = "\<lparr>tid = Suc (timer_ids h), due = now h + 400, later_query = q,
             later_immediate = False\<rparr>"
  have ne: "q \<noteq> query h" using Cons.prems(4) by auto
  have a: "timers ?h1 = [?t] \<and> issued ?h1 = issued h \<and> now ?h1 = now h \<and> \<not> aborted ?h1
     \<and> initialRender ?h1 \<and> query ?h1 = q \<and> timer_inv ?h1"
    using setQuery_arms [OF Cons.prems(1,2,3) ne] by blast
  have p: "p < 400" using Cons.prems(5) pq by simp
  have b: "issued ?h2 = issued ?h1"
    using advance_pending [of ?h1 ?t p] a p by simp
  have c: "\<not> aborted ?h2 \<and> initialRender ?h2 \<and> query ?h2 = q"
    using a advance_frame [of p ?h1] by simp
  have d: "timer_inv ?h2" using a by (simp add: advance_timer_inv)
  have "map key (issued (run (SetQuery q' # burst r @ [Advance n]) ?h2))
       = map key (issued ?h2)
         @ (if 400 \<le> n then [(Autocomplete, last (q' # map snd r))] else [])"
    using c d Cons.prems pq by (intro Cons.IH) auto
  with a b pq show ?case by simp
qed

text \<open>
  C2. Take any state the hook reaches from mounting without being unmounted; earlier queries
  may have left a debounced call pending. Update the \<^verbatim>\<open>query\<close> prop to \<open>q\<close>, then, after pauses
  each shorter than 400 ms, to the further values in \<open>r\<close> (every update changes the prop). After
  a last pause of \<open>n\<close> ms the log of requests sent has grown by exactly one autocomplete request,
  whose input is the last query, when \<open>n\<close> reaches 400, and has not grown at all before that.
\<close>

theorem debounce_burst_one_request:
  assumes "\<not> aborted (run es (mount q0))"
    "distinct_adj (query (run es (mount q0)) # q # map snd r)"
    "\<forall>(p, q') \<in> set r. p < 400"
  shows "map key (issued (run (es @ SetQuery q # burst r @ [Advance n]) (mount q0)))
       = map key (issued (run es (mount q0)))
         @ (if 400 \<le> n then [(Autocomplete, last (q # map snd r))] else [])"
proof -
  have i: "timer_inv (run es (mount q0))" and r: "initialRender (run es (mount q0))"
    using reachable_inv [of es q0] by simp_all
  show ?thesis
    using burst_one_request [OF i assms(1) r assms(2,3), of n]
    by (simp only: run_append)
qed

theorem debounce_burst_one_request_witness:
  "\<not> aborted (run [] (mount []))
   \<and> distinct_adj (query (run [] (mount [])) # ''a'' # map snd [(100, ''ab''), (100, ''abc'')])
   \<and> map key (issued (run [SetQuery ''a'', Advance 100, SetQuery ''ab'', Advance 100,
                            SetQuery ''abc'', Advance 400] (mount [])))
       = [(Autocomplete, ''abc'')]"
  using debounce_burst_one_request
    [of "[]" "[]" "''a''" "[(100, ''ab''), (100, ''abc'')]" 400]
  by (simp add: mount_eq)

text \<open>
  C1 (counterexample). Type \<^verbatim>\<open>a\<close>, wait 400 ms (the request for \<^verbatim>\<open>a\<close> is sent), type
  \<^verbatim>\<open>ab\<close>: the hook is loading for the newer query and its debounced call is pending. When the
  response to the request for \<^verbatim>\<open>a\<close> now resolves, it is dispatched and commits: the results
  are the stale response's and \<^verbatim>\<open>isLoading\<close> is false.
\<close>

theorem stale_response_commits_counterexample:
  "query (run [SetQuery ''a'', Advance 400, SetQuery ''ab''] (mount [])) = ''ab''
   \<and> map key (inflight (run [SetQuery ''a'', Advance 400, SetQuery ''ab''] (mount [])))
       = [(Autocomplete, ''a'')]
   \<and> rstate (run [SetQuery ''a'', Advance 400, SetQuery ''ab''] (mount []))
       = \<lparr>results = EmptyArray, isLoading = True, error = None\<rparr>
   \<and> rstate (run [SetQuery ''a'', Advance 400, SetQuery ''ab'',
                   Resolve 0 \<lparr>status = ''OK'', predictions = [''Aachen'']\<rparr>] (mount []))
       = \<lparr>results = ResponseData \<lparr>status = ''OK'', predictions = [''Aachen'']\<rparr>,
          isLoading = False, error = None\<rparr>"
proof -
  have 1: "run [SetQuery ''a'', Advance 400, SetQuery ''ab''] (mount [])
      = step (SetQuery ''ab'') (run [SetQuery ''a'', Advance 400] (mount []))"
    by (simp only: run.simps)
  have 2: "run [SetQuery ''a'', Advance 400, SetQuery ''ab'',
                Resolve 0 \<lparr>status = ''OK'', predictions = [''Aachen'']\<rparr>] (mount [])
      = step (Resolve 0 \<lparr>status = ''OK'', predictions = [''Aachen'']\<rparr>)
          (step (SetQuery ''ab'') (run [SetQuery ''a'', Advance 400] (mount [])))"
    by (simp only: run.simps)
  show ?thesis
    unfolding 1 2 typed_a_and_waited
    by (simp add: queryEffect_def dispatch_def reducer_def executedFunction_def debounce_def
        clear_def clearTimeout_def setTimeout_def settle_def key_def)
qed

text \<open>
  C1 (amended). A newer query leaves the in-flight requests alone, and the response of an
  in-flight autocomplete request that resolves after it is dispatched to the reducer like any
  other: the state after it is the reducer's result on the state the newer query produced.
  Only unmount stops responses: after it, no sequence of events changes
  \<^verbatim>\<open>results\<close>/\<^verbatim>\<open>isLoading\<close>/\<^verbatim>\<open>error\<close>.
\<close>

theorem stale_response_commits:
  assumes "find (\<lambda>r. rid r = i) (inflight h) = Some r" "endpoint r = Autocomplete"
  shows "inflight (step (SetQuery q) h) = inflight h
     \<and> reducer (rstate (step (SetQuery q) h)) \<lparr>atype = status d, payload = Some d\<rparr>
         = Inr (rstate (step (Resolve i d) (step (SetQuery q) h)))
     \<and> rstate (run es (step Unmount h)) = rstate h"
proof -
  have i: "inflight (step (SetQuery q) h) = inflight h"
    by (auto simp: queryEffect_def dispatch_def executedFunction_def debounce_def clear_def
        clearTimeout_def setTimeout_def Let_def split: sum.splits option.splits)
  have r: "\<exists>s. reducer s0 \<lparr>atype = status d, payload = Some d\<rparr> = Inr s" for s0
    by (simp add: reducer_def)
  have c: "reducer (rstate (step (SetQuery q) h)) \<lparr>atype = status d, payload = Some d\<rparr>
         = Inr (rstate (step (Resolve i d) (step (SetQuery q) h)))"
    using assms r [of "rstate (step (SetQuery q) h)"]
    by (auto simp: i dispatch_def settle_def simp del: step.simps(1))
  have u: "aborted g \<and> inflight g = [] \<Longrightarrow>
      aborted (step e g) \<and> inflight (step e g) = [] \<and> rstate (step e g) = rstate g" for e g
    by (cases e) (simp_all add: advance_frame advance_unmounted fetch_def settle_def)
  have "aborted g \<and> inflight g = [] \<Longrightarrow> rstate (run es g) = rstate g" for g
  proof (induction es arbitrary: g)
    case Nil
    then show ?case by simp
  next
    case (Cons e es)
    then show ?case using u [of g e] by simp
  qed
  then have "rstate (run es (step Unmount h)) = rstate h" by simp
  with i c show ?thesis by blast
qed

theorem stale_response_commits_witness:
  "find (\<lambda>r. rid r = 0) (inflight (run [SetQuery ''a'', Advance 400] (mount [])))
     = Some \<lparr>rid = 0, endpoint = Autocomplete, input = ''a'', sessiontoken = 0\<rparr>
   \<and> rstate (step (Resolve 0 \<lparr>status = ''OK'', predictions = [''Aachen'']\<rparr>)
               (step (SetQuery ''ab'') (run [SetQuery ''a'', Advance 400] (mount []))))
       = \<lparr>results = ResponseData \<lparr>status = ''OK'', predictions = [''Aachen'']\<rparr>,
          isLoading = False, error = None\<rparr>
   \<and> rstate (run [Resolve 0 \<lparr>status = ''OK'', predictions = [''Aachen'']\<rparr>]
               (step Unmount (run [SetQuery ''a'', Advance 400] (mount []))))
       = \<lparr>results = EmptyArray, isLoading = True, error = None\<rparr>"
  using stale_response_commits
    [of 0 "run [SetQuery ''a'', Advance 400] (mount [])"
        "\<lparr>rid = 0, endpoint = Autocomplete, input = ''a'', sessiontoken = 0\<rparr>"
        "''ab''" "\<lparr>status = ''OK'', predictions = [''Aachen'']\<rparr>"
        "[Resolve 0 \<lparr>status = ''OK'', predictions = [''Aachen'']\<rparr>]"]
  unfolding typed_a_and_waited
  by (simp add: queryEffect_def dispatch_def reducer_def executedFunction_def debounce_def
      clear_def clearTimeout_def setTimeout_def settle_def)

subsection \<open>The session token\<close>

lemma fire_timeout_token:
  "sessionToken (fire_timeouts h) = sessionToken h \<and> uuid_calls (fire_timeouts h) = uuid_calls h
   \<and> sessionTokenTimeout (fire_timeouts h) = sessionTokenTimeout h
   \<and> aborted (fire_timeouts h) = aborted h \<and> now (fire_timeouts h) = now h"
  by (simp add: fire_timeouts_frame)

lemma div_step_gen:
  assumes "0 < (K::nat)"
  shows "(n div K + 1) * K \<le> n + 1 \<longleftrightarrow> n div K < (n + 1) div K"
  using assms by (simp add: less_eq_div_iff_mult_less_eq Suc_le_eq [symmetric] del: Suc_le_eq)

lemma div_succ_le:
  assumes "0 < (K::nat)"
  shows "(n + 1) div K \<le> n div K + 1"
  by (metis assms div_add_self2 div_le_dividend div_le_mono div_self
    nat_add_left_cancel_le not_gr_zero)

lemma div_step: "((n::nat) div 180000 + 1) * 180000 \<le> n + 1 \<longleftrightarrow> n div 180000 < (n + 1) div 180000"
  by (rule div_step_gen) simp

lemma div_step_next:
  assumes "(n::nat) div 180000 < (n + 1) div 180000"
  shows "(n div 180000 + 1) * 180000 + 180000 = ((n + 1) div 180000 + 1) * 180000"
proof -
  have "(n + 1) div 180000 \<le> n div 180000 + 1" by (rule div_succ_le) simp
  with assms have "(n + 1) div 180000 = n div 180000 + 1" by linarith
  then show ?thesis by (simp only: add_mult_distrib mult_1)
qed

lemma div_step_same:
  assumes "\<not> (n::nat) div 180000 < (n + 1) div 180000"
  shows "(n + 1) div 180000 = n div 180000"
proof -
  have "n div 180000 \<le> (n + 1) div 180000" by (rule div_le_mono) simp
  with assms show ?thesis by linarith
qed

lemma tick_token:
  assumes "token_inv h"
  shows "token_inv (tick h) \<and> uuid_calls h \<le> uuid_calls (tick h)
     \<and> (if \<not> aborted h \<and> now h div 180000 < (now h + 1) div 180000
         then uuid_calls h \<le> sessionToken (tick h)
         else sessionToken (tick h) = sessionToken h)"
proof (cases "aborted h")
  case True
  then show ?thesis using assms
    by (simp add: tick_def fire_timeout_token fire_interval_def token_inv_def)
next
  case False
  show ?thesis
  proof (cases "now h div 180000 < (now h + 1) div 180000")
    case True
    then show ?thesis using assms False div_step [of "now h"] div_step_next [of "now h"]
      by (simp add: tick_def fire_timeout_token fire_interval_def token_inv_def
          resetSessionToken_def)
  next
    case f: False
    then show ?thesis using assms False div_step [of "now h"] div_step_same [of "now h"]
      by (simp add: tick_def fire_timeout_token fire_interval_def token_inv_def
          resetSessionToken_def)
  qed
qed

lemma advance_token:
  assumes "token_inv h"
  shows "token_inv (advance n h) \<and> uuid_calls h \<le> uuid_calls (advance n h)
     \<and> (if \<not> aborted h \<and> now h div 180000 < (now h + n) div 180000
         then uuid_calls h \<le> sessionToken (advance n h)
         else sessionToken (advance n h) = sessionToken h)"
  using assms
proof (induction n arbitrary: h)
  case 0
  then show ?case by simp
next
  case (Suc n)
  note t = tick_token [OF Suc.prems]
  then have i: "token_inv (tick h)" by simp
  note a = Suc.IH [OF i]
  have ab: "aborted (tick h) = aborted h" and nw: "now (tick h) = now h + 1"
    by (simp_all add: tick_def fire_timeout_token fire_interval_def resetSessionToken_def
        split: option.splits)
  have m1: "now h div 180000 \<le> (now h + 1) div 180000"
    and m2: "(now h + 1) div 180000 \<le> (now h + 1 + n) div 180000"
    by (simp_all add: div_le_mono)
  show ?case
  proof (cases "aborted h")
    case True
    then show ?thesis using t a ab nw by simp
  next
    case False
    show ?thesis
    proof (cases "now h div 180000 < (now h + 1) div 180000")
      case True
      then show ?thesis using t a ab nw False m2 Suc.prems
        by (auto simp: token_inv_def split: if_splits)
    next
      case f: False
      then have "(now h + 1) div 180000 = now h div 180000" using m1 by simp
      then show ?thesis using t a ab nw False f by (auto split: if_splits)
    qed
  qed
qed

lemma queryEffect_token:
  "sessionToken (queryEffect h) = sessionToken h \<and> uuid_calls (queryEffect h) = uuid_calls h
   \<and> sessionTokenTimeout (queryEffect h) = sessionTokenTimeout h
   \<and> aborted (queryEffect h) = aborted h \<and> now (queryEffect h) = now h"
  by (auto simp: queryEffect_def dispatch_def executedFunction_def debounce_def clear_def
      clearTimeout_def setTimeout_def fetch_def Let_def split: sum.splits option.splits)

lemma dispatch_token:
  "sessionToken (dispatch a h) = sessionToken h \<and> uuid_calls (dispatch a h) = uuid_calls h
   \<and> sessionTokenTimeout (dispatch a h) = sessionTokenTimeout h
   \<and> aborted (dispatch a h) = aborted h \<and> now (dispatch a h) = now h"
  by (auto simp: dispatch_def split: sum.splits)

lemma step_token:
  assumes "token_inv h"
  shows "token_inv (step e h)
     \<and> (sessionToken (step e h) \<noteq> sessionToken h) = changes_token e h"
proof (cases e)
  case (SetQuery q)
  then show ?thesis using assms
    by (simp add: token_inv_def queryEffect_token changes_token_def)
next
  case (Advance n)
  note a = advance_token [OF assms, of n]
  have lt: "sessionToken h < uuid_calls h" using assms by (simp add: token_inv_def)
  show ?thesis
  proof (cases "\<not> aborted h \<and> now h div 180000 < (now h + n) div 180000")
    case True
    then have "uuid_calls h \<le> sessionToken (advance n h)" using a by simp
    then have "sessionToken (advance n h) \<noteq> sessionToken h" using lt by linarith
    then show ?thesis using a True Advance by (simp add: changes_token_def)
  next
    case False
    then have "sessionToken (advance n h) = sessionToken h" using a by presburger
    then show ?thesis using a False Advance by (simp add: changes_token_def)
  qed
next
  case (Resolve i d)
  then show ?thesis using assms
    by (auto simp: changes_token_def token_inv_def dispatch_token settle_def
        resetSessionToken_def split: option.splits endpoint.splits)
next
  case (Reject i)
  then show ?thesis using assms by (simp add: token_inv_def settle_def changes_token_def)
next
  case (GetPlaceDetails p)
  then show ?thesis using assms by (simp add: token_inv_def fetch_def changes_token_def Let_def)
next
  case Unmount
  then show ?thesis using assms by (simp add: token_inv_def changes_token_def)
qed

lemma mount_token: "token_inv (mount q)"
  by (simp add: mount_def mountEffect_def queryEffect_def token_inv_def)

lemma run_token: "token_inv h \<Longrightarrow> token_inv (run es h)"
  by (induction es arbitrary: h) (simp_all add: step_token)

text \<open>
  C8. In every state the hook can reach from mounting, an event changes the session token
  exactly when it is time passing across a multiple of 180000 ms since mount while the hook is
  mounted (the interval timer fires), or the response of an in-flight place-details request
  resolving. Every other event, and time passing without crossing such a multiple, leaves the
  token as it is.
\<close>

theorem session_token_changes:
  "(sessionToken (step e (run es (mount q))) \<noteq> sessionToken (run es (mount q)))
     = (case e of
          Advance n \<Rightarrow> \<not> aborted (run es (mount q))
             \<and> now (run es (mount q)) div 180000 < (now (run es (mount q)) + n) div 180000
        | Resolve i d \<Rightarrow>
            (case find (\<lambda>r. rid r = i) (inflight (run es (mount q))) of
               None \<Rightarrow> False
             | Some r \<Rightarrow> endpoint r = Details)
        | _ \<Rightarrow> False)"
  using step_token [OF run_token [OF mount_token], of e es q]
  unfolding changes_token_def by blast

theorem session_token_changes_witness:
  "sessionToken (step (Advance 180000) (run [] (mount []))) \<noteq> sessionToken (run [] (mount []))
   \<and> sessionToken (step (Advance 179999) (run [] (mount []))) = sessionToken (run [] (mount []))
   \<and> sessionToken (step (SetQuery ''a'') (run [] (mount []))) = sessionToken (run [] (mount []))
   \<and> sessionToken (step (Resolve 0 \<lparr>status = ''OK'', predictions = []\<rparr>)
                       (run [GetPlaceDetails ''ChIJ''] (mount [])))
       \<noteq> sessionToken (run [GetPlaceDetails ''ChIJ''] (mount []))"
  using session_token_changes [of "Advance 180000" "[]" "[]"]
    session_token_changes [of "Advance 179999" "[]" "[]"]
    session_token_changes [of "SetQuery ''a''" "[]" "[]"]
    session_token_changes [of "Resolve 0 \<lparr>status = ''OK'', predictions = []\<rparr>"
      "[GetPlaceDetails ''ChIJ'']" "[]"]
  by (simp add: mount_eq fetch_def Let_def del: step.simps(1,2,3))

section \<open>Properties of the modal\<close>

lemma matches_tabindex [simp]: "matches (e\<lparr>tabindex := v\<rparr>) = matches e"
  by (simp add: matches_def)

lemma toggleTabIndex_twice:
  "toggleTabIndex t1 (toggleTabIndex t2 els) = toggleTabIndex t1 els"
  by (induction els) (auto simp: toggleTabIndex_def split: toggle.splits)

lemma run_cleanup_root:
  "rootContainer (page (run_cleanup m)) = rootContainer (page m)
   \<and> isOpen (run_cleanup m) = isOpen m"
  by (simp add: run_cleanup_def unfreeze_def split: option.splits)

lemma effect_root:
  assumes "rootContainer (page m) = Some (toggleTabIndex t els)"
  shows "root_inv els (effect m)"
  using assms
  by (simp add: root_inv_def effect_def Let_def freeze_def unfreeze_def on_container_def
      toggleTabIndex_twice)

lemma step_root:
  assumes "root_inv els m"
  shows "root_inv els (modal_step e m)"
proof (cases e)
  case (SetOpen b)
  show ?thesis
  proof (cases "b = isOpen m")
    case True
    then show ?thesis using assms SetOpen by simp
  next
    case False
    have "rootContainer (page ((run_cleanup m)\<lparr>isOpen := b\<rparr>))
        = Some (toggleTabIndex (if isOpen m then Off else On) els)"
      using assms by (simp add: run_cleanup_root root_inv_def)
    then have "root_inv els (effect ((run_cleanup m)\<lparr>isOpen := b\<rparr>))"
      by (rule effect_root)
    then show ?thesis using False SetOpen by simp
  qed
next
  case TimeoutFired
  then show ?thesis using assms by (auto simp: root_inv_def split: option.splits)
next
  case (Scrolled y)
  then show ?thesis using assms by (simp add: root_inv_def)
next
  case (ContentRendered c)
  then show ?thesis using assms by (simp add: root_inv_def)
qed

lemma run_root: "root_inv els m \<Longrightarrow> root_inv els (modal_run evs m)"
  by (induction evs arbitrary: m) (simp_all add: step_root)

lemma mount_root:
  assumes "rootContainer p = Some els"
  shows "root_inv els (modal_mount b fae p)"
  using assms
  by (simp add: root_inv_def modal_mount_def effect_def Let_def freeze_def unfreeze_def
      on_container_def)

lemma effect_isOpen: "isOpen (effect m) = isOpen m"
  by (simp add: effect_def Let_def)

lemma step_isOpen:
  "isOpen (modal_step e m) = (case e of SetOpen b' \<Rightarrow> b' | _ \<Rightarrow> isOpen m)"
  by (cases e) (auto simp: effect_isOpen split: option.splits)

lemma run_isOpen: "isOpen (modal_run evs m) = final_open (isOpen m) evs"
  by (induction evs arbitrary: m) (simp_all add: final_open_def step_isOpen)

lemma toggled_tabindex:
  assumes "e \<in> set (focusableElements (toggleTabIndex t els))"
  shows "(tabindex e = Some ''-1'') = (t = Off)"
  using assms
  by (induction els) (auto simp: toggleTabIndex_def focusableElements_def split: toggle.splits if_splits)

lemma effect_cleanup: "cleanup_inv (effect m)"
  by (simp add: cleanup_inv_def effect_def Let_def)

lemma step_cleanup:
  assumes "cleanup_inv m"
  shows "cleanup_inv (modal_step e m)"
proof (cases e)
  case (SetOpen b)
  then show ?thesis using assms by (simp add: effect_cleanup)
next
  case TimeoutFired
  then show ?thesis using assms by (auto simp: cleanup_inv_def split: option.splits)
next
  case (Scrolled y)
  then show ?thesis using assms by (simp add: cleanup_inv_def)
next
  case (ContentRendered c)
  then show ?thesis using assms by (simp add: cleanup_inv_def)
qed

lemma run_cleanup_inv: "cleanup_inv m \<Longrightarrow> cleanup_inv (modal_run evs m)"
  by (induction evs arbitrary: m) (simp_all add: step_cleanup)

lemma mount_cleanup: "cleanup_inv (modal_mount b fae p)"
  by (simp add: modal_mount_def effect_cleanup)

lemma open_freezes:
  assumes "\<not> isOpen m" "cleanup m = None"
  shows "frozen_at (pageYOffset (page m)) (modal_step (SetOpen True) m)
     \<and> pageYOffset (page (modal_step (SetOpen True) m)) = pageYOffset (page m)"
  using assms
  by (simp add: frozen_at_def effect_def run_cleanup_def Let_def freeze_def)

lemma step_frozen:
  assumes "frozen_at y m" "\<not> is_SetOpen e"
  shows "frozen_at y (modal_step e m)"
  using assms by (cases e) (auto simp: frozen_at_def split: option.splits)

lemma run_frozen:
  assumes "frozen_at y m" "list_all (\<lambda>e. \<not> is_SetOpen e) evs"
  shows "frozen_at y (modal_run evs m)"
  using assms by (induction evs arbitrary: m) (simp_all add: step_frozen)

lemma close_restores:
  assumes "frozen_at y m"
  shows "pageYOffset (page (modal_step (SetOpen False) m)) = y
     \<and> body_style (page (modal_step (SetOpen False) m)) = None"
  using assms
  by (simp add: frozen_at_def effect_def run_cleanup_def Let_def unfreeze_def)

lemma deferred_pass:
  assumes "modalContainer p \<noteq> None"
  shows "modalContainer (page (modal_run [ContentRendered c, TimeoutFired]
            (modal_mount False fae p))) = Some (toggleTabIndex Off c)"
  using assms
  by (simp add: modal_mount_def effect_def Let_def unfreeze_def on_container_def)

lemma toggled_unmatched:
  "filter (\<lambda>e. \<not> matches e) (toggleTabIndex t els) = filter (\<lambda>e. \<not> matches e) els"
  by (induction els) (auto simp: toggleTabIndex_def split: toggle.splits)

text \<open>
  What the code does to the root container, for every sequence of events after mounting (open
  and close toggles, the deferred timeout, scrolling, the portal's content being rendered):
  \<^verbatim>\<open>isOpen\<close> is the value of the last toggle; the root container's elements are the original
  ones with \<^verbatim>\<open>toggleTabIndex\<close> applied once for that value; the elements that the selector
  \<^verbatim>\<open>button, a, input, textarea, select\<close> matches have \<^verbatim>\<open>tabindex\<close> \<^verbatim>\<open>-1\<close> exactly when the modal is
  open; the elements it does not match are as they were. When the content is rendered into the
  modal's container after a closed mount, the deferred pass switches the content's elements
  off.
\<close>

lemma root_container_after_toggles:
  assumes "rootContainer p = Some els"
  shows "isOpen (modal_run evs (modal_mount b fae p)) = final_open b evs
     \<and> rootContainer (page (modal_run evs (modal_mount b fae p)))
         = Some (toggleTabIndex (if final_open b evs then Off else On) els)
     \<and> (\<forall>e \<in> set (focusableElements (toggleTabIndex (if final_open b evs then Off else On) els)).
          (tabindex e = Some ''-1'') = final_open b evs)
     \<and> filter (\<lambda>e. \<not> matches e) (toggleTabIndex (if final_open b evs then Off else On) els)
         = filter (\<lambda>e. \<not> matches e) els
     \<and> (modalContainer p \<noteq> None \<longrightarrow>
          modalContainer (page (modal_run [ContentRendered c, TimeoutFired]
             (modal_mount False fae p))) = Some (toggleTabIndex Off c))"
proof -
  have o: "isOpen (modal_run evs (modal_mount b fae p)) = final_open b evs"
    by (simp add: run_isOpen modal_mount_def effect_isOpen)
  have "root_inv els (modal_run evs (modal_mount b fae p))"
    using run_root [OF mount_root [OF assms]] .
  then have r: "rootContainer (page (modal_run evs (modal_mount b fae p)))
         = Some (toggleTabIndex (if final_open b evs then Off else On) els)"
    by (simp add: root_inv_def o)
  show ?thesis using o r toggled_tabindex toggled_unmatched deferred_pass by auto
qed

text \<open>
  C4 (the code at the failing input). The root container holds a \<^verbatim>\<open>button\<close>, a \<^verbatim>\<open>div\<close> that its
  \<^verbatim>\<open>tabindex="0"\<close> makes focusable and tab-reachable, and an \<^verbatim>\<open>iframe\<close>. The modal is mounted
  closed and then opened. The button gets \<^verbatim>\<open>tabindex="-1"\<close>; the \<^verbatim>\<open>div\<close> keeps
  \<^verbatim>\<open>tabindex="0"\<close> and the \<^verbatim>\<open>iframe\<close> gets no \<^verbatim>\<open>tabindex\<close>, because the selector of
  \<^verbatim>\<open>toggleTabIndex\<close> lists five tag names only: both stay reachable with the Tab key while the
  modal is open.
\<close>

theorem background_focusable_left_reachable:
  "isOpen (modal_run [SetOpen True]
        (modal_mount False False
           \<lparr>rootContainer = Some [\<lparr>tag = ''button'', tabindex = None\<rparr>,
                                  \<lparr>tag = ''div'', tabindex = Some ''0''\<rparr>,
                                  \<lparr>tag = ''iframe'', tabindex = None\<rparr>],
            modalContainer = Some [], pageYOffset = 120, body_style = None,
            keydown = False, activeElement = Elsewhere\<rparr>))
   \<and> rootContainer (page (modal_run [SetOpen True]
        (modal_mount False False
           \<lparr>rootContainer = Some [\<lparr>tag = ''button'', tabindex = None\<rparr>,
                                  \<lparr>tag = ''div'', tabindex = Some ''0''\<rparr>,
                                  \<lparr>tag = ''iframe'', tabindex = None\<rparr>],
            modalContainer = Some [], pageYOffset = 120, body_style = None,
            keydown = False, activeElement = Elsewhere\<rparr>)))
     = Some [\<lparr>tag = ''button'', tabindex = Some ''-1''\<rparr>,
             \<lparr>tag = ''div'', tabindex = Some ''0''\<rparr>,
             \<lparr>tag = ''iframe'', tabindex = None\<rparr>]"
  by (simp add: modal_mount_def effect_def run_cleanup_def Let_def unfreeze_def freeze_def
      on_container_def toggleTabIndex_def matches_def selector_def)

lemma mount_open_freezes: "frozen_at (pageYOffset p) (modal_mount True fae p)"
  by (simp add: frozen_at_def modal_mount_def effect_def Let_def freeze_def)

text \<open>
  C5. Take any closed state the modal can reach, with the window at offset \<open>y\<close>. Opening it sets
  the body to \<^verbatim>\<open>position: fixed\<close> with \<^verbatim>\<open>top\<close> equal to \<open>-y\<close>, and that stays so whatever
  happens while it is open (scroll events included). Closing it removes the body style and
  scrolls the window back to \<open>y\<close>. The same holds for a modal that is mounted open on a page at
  offset \<open>y\<close> and then closed.
\<close>

theorem open_close_restores_scroll:
  assumes "\<not> isOpen (modal_run evs0 (modal_mount b fae p))"
    and "list_all (\<lambda>e. \<not> is_SetOpen e) evs"
  shows "body_style (page (modal_run evs (modal_step (SetOpen True)
             (modal_run evs0 (modal_mount b fae p)))))
           = Some (- pageYOffset (page (modal_run evs0 (modal_mount b fae p))))
     \<and> pageYOffset (page (modal_step (SetOpen False) (modal_run evs (modal_step (SetOpen True)
             (modal_run evs0 (modal_mount b fae p))))))
           = pageYOffset (page (modal_run evs0 (modal_mount b fae p)))
     \<and> body_style (page (modal_step (SetOpen False) (modal_run evs (modal_step (SetOpen True)
             (modal_run evs0 (modal_mount b fae p))))))
           = None
     \<and> body_style (page (modal_run evs (modal_mount True fae' p'))) = Some (- pageYOffset p')
     \<and> pageYOffset (page (modal_step (SetOpen False) (modal_run evs (modal_mount True fae' p'))))
           = pageYOffset p'
     \<and> body_style (page (modal_step (SetOpen False) (modal_run evs (modal_mount True fae' p'))))
           = None"
proof -
  let ?m = "modal_run evs0 (modal_mount b fae p)"
  have "cleanup_inv ?m" using run_cleanup_inv [OF mount_cleanup] .
  then have c: "cleanup ?m = None" using assms(1) by (simp add: cleanup_inv_def)
  have "frozen_at (pageYOffset (page ?m)) (modal_step (SetOpen True) ?m)"
    using open_freezes [OF assms(1) c] by blast
  then have f: "frozen_at (pageYOffset (page ?m)) (modal_run evs (modal_step (SetOpen True) ?m))"
    using assms(2) by (rule run_frozen)
  have g: "frozen_at (pageYOffset p') (modal_run evs (modal_mount True fae' p'))"
    using mount_open_freezes assms(2) by (rule run_frozen)
  show ?thesis using f close_restores [OF f] g close_restores [OF g] by (simp add: frozen_at_def)
qed

theorem open_close_restores_scroll_witness:
  "\<not> isOpen (modal_run [] (modal_mount False False
        \<lparr>rootContainer = Some [], modalContainer = Some [], pageYOffset = 120,
         body_style = None, keydown = False, activeElement = Elsewhere\<rparr>))
   \<and> body_style (page (modal_run [Scrolled 0] (modal_step (SetOpen True)
        (modal_run [] (modal_mount False False
           \<lparr>rootContainer = Some [], modalContainer = Some [], pageYOffset = 120,
            body_style = None, keydown = False, activeElement = Elsewhere\<rparr>))))) = Some (- 120)
   \<and> pageYOffset (page (modal_run [Scrolled 0] (modal_step (SetOpen True)
        (modal_run [] (modal_mount False False
           \<lparr>rootContainer = Some [], modalContainer = Some [], pageYOffset = 120,
            body_style = None, keydown = False, activeElement = Elsewhere\<rparr>))))) = 0
   \<and> pageYOffset (page (modal_step (SetOpen False) (modal_run [Scrolled 0]
        (modal_step (SetOpen True) (modal_run [] (modal_mount False False
           \<lparr>rootContainer = Some [], modalContainer = Some [], pageYOffset = 120,
            body_style = None, keydown = False, activeElement = Elsewhere\<rparr>)))))) = 120"
  using open_close_restores_scroll
    [of "[]" False False
        "\<lparr>rootContainer = Some [], modalContainer = Some [], pageYOffset = 120,
          body_style = None, keydown = False, activeElement = Elsewhere\<rparr>"
        "[Scrolled 0]" False
        "\<lparr>rootContainer = Some [], modalContainer = Some [], pageYOffset = 120,
          body_style = None, keydown = False, activeElement = Elsewhere\<rparr>"]
  by (simp add: modal_mount_def effect_def run_cleanup_def Let_def unfreeze_def freeze_def
      on_container_def toggleTabIndex_def)

section \<open>Properties of the scroll animator\<close>

lemma translate_of_cong:
  "options st = options st' \<Longrightarrow> cachePosition st = cachePosition st' \<Longrightarrow>
     translate_of st e = translate_of st' e"
  by (simp add: translate_of_def Let_def)

lemma animate_running:
  assumes "options st = a" "cachePosition st = target_top a + offset_of a + y" "startTime st = s"
    "\<not> timeout_set st" "scrollTop st = y" "t - s < duration_of a"
  shows "running a y s (animate t st) \<and> transform (animate t st) = Some (translate_of st (t - s))"
  using assms by (simp add: running_def animate_def Let_def)

lemma frames_running:
  assumes "running a y s st" "list_all (\<lambda>t. t - s < duration_of a) ts" "ts \<noteq> []"
  shows "running a y s (anim_run (map Frame ts) st)
     \<and> transform (anim_run (map Frame ts) st) = Some (translate_of st (last ts - s))"
  using assms
proof (induction ts arbitrary: st)
  case Nil
  then show ?case by simp
next
  case (Cons t ts)
  let ?st1 = "anim_step (Frame t) st"
  have s1: "running a y s ?st1 \<and> transform ?st1 = Some (translate_of st (t - s))"
    using Cons.prems animate_running [of "st\<lparr>frame_requested := False\<rparr>" a y s t]
    by (simp add: running_def translate_of_def Let_def)
  show ?case
  proof (cases "ts = []")
    case True
    then show ?thesis using s1 by simp
  next
    case False
    have "running a y s (anim_run (map Frame ts) ?st1)
     \<and> transform (anim_run (map Frame ts) ?st1) = Some (translate_of ?st1 (last ts - s))"
      using Cons.prems s1 False by (intro Cons.IH) simp_all
    moreover have "translate_of ?st1 (last ts - s) = translate_of st (last ts - s)"
      using s1 Cons.prems(1) by (intro translate_of_cong) (simp_all add: running_def)
    ultimately show ?thesis using False by simp
  qed
qed

lemma scroll_running:
  assumes "f - s < duration_of a"
  shows "running a y s (scroll a y s f)"
  using assms by (simp add: scroll_def running_def animate_def Let_def)

lemma completion:
  assumes "running a y s st" "duration_of a \<le> t - s"
  shows "transform (anim_run [Frame t, Timeout] st) = Some 0
     \<and> scrollTop (anim_run [Frame t, Timeout] st) = target_top a + offset_of a + y
     \<and> \<not> frame_requested (anim_run [Frame t, Timeout] st)"
  using assms by (simp add: running_def animate_def finish_def Let_def)

lemma anim_run_append: "anim_run (xs @ ys) a = anim_run ys (anim_run xs a)"
  by (induction xs arbitrary: a) simp_all

lemma scroll_first_frame:
  assumes "f - s < duration_of a"
  shows "transform (scroll a y s f) = Some (translate_of (scroll a y s f) (f - s))"
  using assms by (simp add: scroll_def animate_def translate_of_def Let_def)

text \<open>
  A frame that runs at a clock reading \<open>t\<close> with \<open>s \<le> t\<close> and \<open>t - s\<close> below the duration
  evaluates the easing function at a ratio in \<open>[0, 1)\<close> and writes the resulting translate.
\<close>

lemma frame_translate:
  assumes "frame_requested st" "startTime st = s" "s \<le> t" "t - s < duration_of (options st)"
  shows "transform (anim_step (Frame t) st) = Some (translate_of st (t - s))
     \<and> 0 \<le> (t - s) / duration_of (options st) \<and> (t - s) / duration_of (options st) < 1"
  using assms by (simp add: animate_def translate_of_def Let_def)

text \<open>
  C6 (the code at the failing input). The page is scrolled by 50 px, the target is 100 px below
  the top of the viewport, the duration is the default 500 ms and the easing function is
  \<open>t \<mapsto> 2t\<close>. The frame at 400 ms has easing value 1.6 and writes \<^verbatim>\<open>translateY(-150px)\<close>, the
  negated \<^verbatim>\<open>cachePosition\<close>, while the window is still scrolled by 50 px. An easing value of
  exactly 1 (easing \<open>t \<mapsto> 5t/4\<close> at the same frame) writes \<^verbatim>\<open>translateY(-100px)\<close>, the position
  the animation ends at: completion then removes the translate and scrolls the window to
  150 = 50 + 100.
\<close>

theorem animate_clamp_passes_final_position:
  "transform (anim_run [Frame 400]
      (scroll \<lparr>target_top = 100, callback = True, duration = None,
               easingFn = Some (\<lambda>t. 2 * t), offset = None\<rparr> 50 0 0)) = Some (- 150)
   \<and> scrollTop (anim_run [Frame 400]
      (scroll \<lparr>target_top = 100, callback = True, duration = None,
               easingFn = Some (\<lambda>t. 2 * t), offset = None\<rparr> 50 0 0)) = 50
   \<and> transform (anim_run [Frame 400]
      (scroll \<lparr>target_top = 100, callback = True, duration = None,
               easingFn = Some (\<lambda>t. 5 * t / 4), offset = None\<rparr> 50 0 0)) = Some (- 100)
   \<and> transform (anim_run [Frame 400, Frame 500, Timeout]
      (scroll \<lparr>target_top = 100, callback = True, duration = None,
               easingFn = Some (\<lambda>t. 2 * t), offset = None\<rparr> 50 0 0)) = Some 0
   \<and> scrollTop (anim_run [Frame 400, Frame 500, Timeout]
      (scroll \<lparr>target_top = 100, callback = True, duration = None,
               easingFn = Some (\<lambda>t. 2 * t), offset = None\<rparr> 50 0 0)) = 150"
  by (simp add: scroll_def animate_def finish_def translate_of_def duration_of_def
      easingFn_of_def offset_of_def Let_def)

text \<open>
  C7 (counterexample). With the default options and the target 100 px down, the frame at 250 ms
  leaves \<^verbatim>\<open>translateY(-6.25px)\<close> on the base element and requests the next frame. \<^verbatim>\<open>scroll\<close>
  has handed nothing to its caller, and the one piece of code that resets the transform, the
  completion timeout, is not set: if no further frame runs, the transform stays.
\<close>

theorem scroll_no_cancel_counterexample:
  "transform (anim_run [Frame 250]
      (scroll \<lparr>target_top = 100, callback = True, duration = None, easingFn = None,
               offset = None\<rparr> 0 0 0)) = Some (- 25 / 4)
   \<and> frame_requested (anim_run [Frame 250]
      (scroll \<lparr>target_top = 100, callback = True, duration = None, easingFn = None,
               offset = None\<rparr> 0 0 0))
   \<and> anim_step Timeout (anim_run [Frame 250]
      (scroll \<lparr>target_top = 100, callback = True, duration = None, easingFn = None,
               offset = None\<rparr> 0 0 0))
     = anim_run [Frame 250]
      (scroll \<lparr>target_top = 100, callback = True, duration = None, easingFn = None,
               offset = None\<rparr> 0 0 0)"
  by (simp add: scroll_def animate_def translate_of_def duration_of_def easingFn_of_def
      offset_of_def Let_def)

text \<open>
  C7 (amended). While the first call of \<^verbatim>\<open>animate\<close> and every later frame run with elapsed time
  below the duration, the base element carries the translate of the last of them and a further
  frame is requested. The transform is reset to \<^verbatim>\<open>translateY(0px)\<close>, and the window scrolled to the
  cached target position, by the completion timeout that the first frame with elapsed time at or
  above the duration sets.
\<close>

theorem scroll_transform_reset_at_completion:
  assumes "list_all (\<lambda>t. t - s < duration_of a) (f # ts)" "duration_of a \<le> t' - s"
  shows "transform (anim_run (map Frame ts) (scroll a y s f))
       = Some (translate_of (scroll a y s f) (last (f # ts) - s))
     \<and> frame_requested (anim_run (map Frame ts) (scroll a y s f))
     \<and> transform (anim_run (map Frame ts @ [Frame t', Timeout]) (scroll a y s f)) = Some 0
     \<and> scrollTop (anim_run (map Frame ts @ [Frame t', Timeout]) (scroll a y s f))
         = target_top a + offset_of a + y"
proof -
  let ?st = "scroll a y s f"
  have f: "f - s < duration_of a" using assms(1) by simp
  have r0: "running a y s ?st" using scroll_running [OF f] .
  have r: "running a y s (anim_run (map Frame ts) ?st)
      \<and> transform (anim_run (map Frame ts) ?st) = Some (translate_of ?st (last (f # ts) - s))"
  proof (cases "ts = []")
    case True
    then show ?thesis using r0 scroll_first_frame [OF f] by simp
  next
    case False
    then show ?thesis using frames_running [OF r0, of ts] assms(1) by simp
  qed
  then have "running a y s (anim_run (map Frame ts) ?st)" by blast
  note c = completion [OF this assms(2)]
  show ?thesis using r c by (simp add: anim_run_append running_def)
qed

theorem scroll_transform_reset_at_completion_witness:
  "list_all (\<lambda>t. t - 0 < duration_of \<lparr>target_top = 100, callback = True, duration = None,
               easingFn = None, offset = None\<rparr>) [0, 250 :: real]
   \<and> transform (anim_run (map Frame [250])
      (scroll \<lparr>target_top = 100, callback = True, duration = None, easingFn = None,
               offset = None\<rparr> 30 0 0)) = Some (- 25 / 4)
   \<and> transform (anim_run (map Frame [250] @ [Frame 500, Timeout])
      (scroll \<lparr>target_top = 100, callback = True, duration = None, easingFn = None,
               offset = None\<rparr> 30 0 0)) = Some 0
   \<and> scrollTop (anim_run (map Frame [250] @ [Frame 500, Timeout])
      (scroll \<lparr>target_top = 100, callback = True, duration = None, easingFn = None,
               offset = None\<rparr> 30 0 0)) = 130"
  using scroll_transform_reset_at_completion
    [of 0 "\<lparr>target_top = 100, callback = True, duration = None, easingFn = None,
               offset = None\<rparr>" 0 "[250]" 500 30]
  by (simp add: duration_of_def offset_of_def translate_of_def easingFn_of_def scroll_def
      animate_def Let_def)

section \<open>Properties of the SEO component\<close>

text \<open>
  C10 (counterexample). With \<^verbatim>\<open>title\<close> given as the empty string the rendered title is the site's
  title, not the prop; and with an empty \<^verbatim>\<open>keywords\<close> array a keywords entry is still rendered
  when the caller's \<^verbatim>\<open>meta\<close> prop carries one.
\<close>

theorem seo_title_description_keywords_counterexample:
  "helmet_title (SEO \<lparr>title = Some [], description = None, lang = None, keywords_prop = Some [],
                       meta = Some [named ''keywords'' (Some ''blog'')]\<rparr>
                     \<lparr>site_title = ''Tim Chang'', site_description = ''Portfolio'',
                      site_author = ''@timcchang''\<rparr>) = ''Tim Chang''
   \<and> ''Tim Chang'' \<noteq> []
   \<and> has_keywords_entry (SEO \<lparr>title = Some [], description = None, lang = None,
                       keywords_prop = Some [],
                       meta = Some [named ''keywords'' (Some ''blog'')]\<rparr>
                     \<lparr>site_title = ''Tim Chang'', site_description = ''Portfolio'',
                      site_author = ''@timcchang''\<rparr>)"
  by (simp add: SEO_def or_else_def has_keywords_entry_def named_def property_def Let_def)

text \<open>
  C10 (amended). For every invocation: the rendered title is the \<^verbatim>\<open>title\<close> prop when it is given
  and not the empty string, and the site's title otherwise. The entries named \<^verbatim>\<open>description\<close>
  are the component's own, whose content is the \<^verbatim>\<open>description\<close> prop when it is given and not
  the empty string and the site's description otherwise, followed by those of the caller's
  \<^verbatim>\<open>meta\<close> prop. The entries named \<^verbatim>\<open>keywords\<close> are the component's own, present exactly when
  the \<^verbatim>\<open>keywords\<close> array is non-empty and then with the keywords joined by a comma and a space
  as content, followed by those of the caller's \<^verbatim>\<open>meta\<close> prop. So a keywords entry is rendered
  exactly when the array is non-empty or the caller's \<^verbatim>\<open>meta\<close> carries one.
\<close>

theorem seo_title_description_keywords:
  "helmet_title (SEO props site)
       = (case title props of
            None \<Rightarrow> site_title site
          | Some t \<Rightarrow> if t = [] then site_title site else t)
   \<and> filter (\<lambda>e. meta_name e = Some ''description'') (helmet_meta (SEO props site))
       = named ''description''
           (Some (case description props of
                    None \<Rightarrow> site_description site
                  | Some d \<Rightarrow> if d = [] then site_description site else d))
         # filter (\<lambda>e. meta_name e = Some ''description'')
             (case meta props of None \<Rightarrow> [] | Some m \<Rightarrow> m)
   \<and> filter (\<lambda>e. meta_name e = Some ''keywords'') (helmet_meta (SEO props site))
       = (case keywords_prop props of
            None \<Rightarrow> []
          | Some k \<Rightarrow> if k = [] then [] else [named ''keywords'' (Some (join '', '' k))])
         @ filter (\<lambda>e. meta_name e = Some ''keywords'')
             (case meta props of None \<Rightarrow> [] | Some m \<Rightarrow> m)
   \<and> has_keywords_entry (SEO props site)
       = ((case keywords_prop props of None \<Rightarrow> False | Some k \<Rightarrow> k \<noteq> [])
          \<or> (\<exists>e \<in> set (case meta props of None \<Rightarrow> [] | Some m \<Rightarrow> m).
                meta_name e = Some ''keywords''))"
  by (auto simp: SEO_def or_else_def has_keywords_entry_def named_def property_def Let_def
      split: option.splits)

theorem seo_title_description_keywords_witness:
  "helmet_title (SEO \<lparr>title = Some ''Blog'', description = None, lang = None,
                       keywords_prop = Some [''React'', ''Hooks''], meta = None\<rparr>
                     \<lparr>site_title = ''Tim Chang'', site_description = ''Portfolio'',
                      site_author = ''@timcchang''\<rparr>) = ''Blog''
   \<and> filter (\<lambda>e. meta_name e = Some ''description'')
        (helmet_meta (SEO \<lparr>title = Some ''Blog'', description = None, lang = None,
                       keywords_prop = Some [''React'', ''Hooks''], meta = None\<rparr>
                     \<lparr>site_title = ''Tim Chang'', site_description = ''Portfolio'',
                      site_author = ''@timcchang''\<rparr>))
       = [named ''description'' (Some ''Portfolio'')]
   \<and> filter (\<lambda>e. meta_name e = Some ''keywords'')
        (helmet_meta (SEO \<lparr>title = Some ''Blog'', description = None, lang = None,
                       keywords_prop = Some [''React'', ''Hooks''], meta = None\<rparr>
                     \<lparr>site_title = ''Tim Chang'', site_description = ''Portfolio'',
                      site_author = ''@timcchang''\<rparr>))
       = [named ''keywords'' (Some ''React, Hooks'')]"
  using seo_title_description_keywords
    [of "\<lparr>title = Some ''Blog'', description = None, lang = None,
                       keywords_prop = Some [''React'', ''Hooks''], meta = None\<rparr>"
        "\<lparr>site_title = ''Tim Chang'', site_description = ''Portfolio'',
                      site_author = ''@timcchang''\<rparr>"]
  by simp

end
